theory Spec2Isabelle
  imports Main "HOL-Library.Word" "HOL-Library.Monad_Syntax"
begin

section \<open>C types of archive\_swift\_bridge.c\<close>

text \<open>
  The bridge is compiled for 64-bit targets: \<open>size_t\<close> and \<open>ssize_t\<close> are 64-bit
  words (the order \<open><\<close> on words is the unsigned one, \<open><s\<close> the signed one), a
  pointer is a 64-bit address with \<open>0\<close> for \<open>NULL\<close>, and \<open>int\<close> is a 32-bit word.
\<close>

type_synonym size_t = "64 word"
type_synonym ssize_t = "64 word"
type_synonym ptr = "64 word"
type_synonym c_int = "32 word"
type_synonym byte = "8 word"

text \<open>The structs \<open>ZSTD_inBuffer\<close> and \<open>ZSTD_outBuffer\<close> of zstd.h.\<close>

record ZSTD_inBuffer =
  src :: ptr
  size_i :: size_t
  pos_i :: size_t

record ZSTD_outBuffer =
  dst :: ptr
  size_o :: size_t
  pos_o :: size_t

section \<open>The external functions the bridge calls\<close>

text \<open>
  Every function called by \<open>zstd_decompress_fd\<close> belongs to libzstd, libc or the
  kernel. They are parameters of the model: each one acts on a state of the outside
  world \<open>'w\<close> (memory, descriptors, codec contexts) and returns what the C function
  returns. \<open>ZSTD_decompressStream\<close> receives pointers to the two buffer structs and
  may update them, so it returns both structs. \<open>ZSTD_isError\<close> tests a status code
  and the two size functions return library constants: they do not touch the world.
  The results of \<open>ZSTD_freeDStream\<close> and \<open>free\<close> are not used by the bridge.
\<close>

record 'w extern =
  ZSTD_createDStream :: "'w \<Rightarrow> ptr \<times> 'w"
  ZSTD_initDStream :: "ptr \<Rightarrow> 'w \<Rightarrow> size_t \<times> 'w"
  ZSTD_isError :: "size_t \<Rightarrow> bool"
  ZSTD_freeDStream :: "ptr \<Rightarrow> 'w \<Rightarrow> 'w"
  ZSTD_DStreamInSize :: size_t
  ZSTD_DStreamOutSize :: size_t
  ZSTD_decompressStream ::
    "ptr \<Rightarrow> ZSTD_outBuffer \<Rightarrow> ZSTD_inBuffer \<Rightarrow> 'w \<Rightarrow> size_t \<times> ZSTD_outBuffer \<times> ZSTD_inBuffer \<times> 'w"
  malloc :: "size_t \<Rightarrow> 'w \<Rightarrow> ptr \<times> 'w"
  free :: "ptr \<Rightarrow> 'w \<Rightarrow> 'w"
  read :: "c_int \<Rightarrow> ptr \<Rightarrow> size_t \<Rightarrow> 'w \<Rightarrow> ssize_t \<times> 'w"
  "write" :: "c_int \<Rightarrow> ptr \<Rightarrow> size_t \<Rightarrow> 'w \<Rightarrow> ssize_t \<times> 'w"

section \<open>archive\_set\_error\_wrapper\<close>

text \<open>
  \<open>archive_set_error\<close> is libarchive's variadic function
  \<open>void archive_set_error(struct archive *, int, const char *fmt, ...)\<close>. It is a
  parameter here: it receives the archive handle, the error number, the format string
  and the list of variadic arguments.
\<close>

datatype c_arg = Str string | Int int

definition archive_set_error_wrapper ::
  "(ptr \<Rightarrow> c_int \<Rightarrow> string \<Rightarrow> c_arg list \<Rightarrow> 'a \<Rightarrow> 'a) \<Rightarrow> ptr \<Rightarrow> c_int \<Rightarrow> string \<Rightarrow> 'a \<Rightarrow> 'a" where
  "archive_set_error_wrapper archive_set_error a error_number error_string =
     archive_set_error a error_number ''%s'' [Str error_string]"

section \<open>zstd\_decompress\_fd\<close>

text \<open>
  The inner loop \<open>while (input.pos < input.size)\<close>. It returns \<open>True\<close> when it left
  through \<open>rc = 1; goto done\<close> and \<open>False\<close> when its condition became false. The
  codec decides how much input each step consumes, so the loop need not end: not
  returning is \<open>None\<close>. The test \<open>written != (ssize_t)output.pos\<close> compares two
  64-bit values after a cast that leaves the bits as they are, so it is the inequality
  of the two words.
\<close>

partial_function (option) drain_input ::
  "'w extern \<Rightarrow> ptr \<Rightarrow> ptr \<Rightarrow> size_t \<Rightarrow> c_int \<Rightarrow> ZSTD_inBuffer \<Rightarrow> 'w \<Rightarrow> (bool \<times> 'w) option"
where
  "drain_input X dstream out_buf out_size dst_fd input w =
     (if pos_i input < size_i input then
        (case ZSTD_decompressStream X dstream \<lparr>dst = out_buf, size_o = out_size, pos_o = 0\<rparr> input w of
           (result, output, input', w1) \<Rightarrow>
             if ZSTD_isError X result then Some (True, w1)
             else if 0 < pos_o output then
               (case write X dst_fd out_buf (pos_o output) w1 of
                  (written, w2) \<Rightarrow>
                    if written \<noteq> pos_o output then Some (True, w2)
                    else drain_input X dstream out_buf out_size dst_fd input' w2)
             else drain_input X dstream out_buf out_size dst_fd input' w1)
      else Some (False, w))"

text \<open>
  The outer loop \<open>while ((bytes_read = read(...)) > 0)\<close> together with the test
  \<open>if (bytes_read < 0) rc = 1\<close> that follows it; the result is \<open>rc\<close> at the label
  \<open>done\<close>. \<open>bytes_read\<close> is signed, and \<open>(size_t)bytes_read\<close> has the same bits.
\<close>

partial_function (option) read_loop ::
  "'w extern \<Rightarrow> ptr \<Rightarrow> ptr \<Rightarrow> size_t \<Rightarrow> ptr \<Rightarrow> size_t \<Rightarrow> c_int \<Rightarrow> c_int \<Rightarrow> 'w \<Rightarrow> (c_int \<times> 'w) option"
where
  "read_loop X dstream in_buf in_size out_buf out_size src_fd dst_fd w =
     (case read X src_fd in_buf in_size w of
        (bytes_read, w1) \<Rightarrow>
          if 0 <s bytes_read then
            (case drain_input X dstream out_buf out_size dst_fd
                    \<lparr>src = in_buf, size_i = bytes_read, pos_i = 0\<rparr> w1 of
               None \<Rightarrow> None
             | Some (jumped, w2) \<Rightarrow>
                 if jumped then Some (1, w2)
                 else read_loop X dstream in_buf in_size out_buf out_size src_fd dst_fd w2)
          else Some (if bytes_read <s 0 then 1 else 0, w1))"

text \<open>
  The function itself: the three early returns of the setup, then the loops, then the
  releases at \<open>done\<close>.
\<close>

definition zstd_decompress_fd :: "'w extern \<Rightarrow> c_int \<Rightarrow> c_int \<Rightarrow> 'w \<Rightarrow> (c_int \<times> 'w) option" where
  "zstd_decompress_fd X src_fd dst_fd w =
     (case ZSTD_createDStream X w of
        (dstream, w1) \<Rightarrow>
          if dstream = 0 then Some (1, w1)
          else
            (case ZSTD_initDStream X dstream w1 of
               (init_result, w2) \<Rightarrow>
                 if ZSTD_isError X init_result then Some (1, ZSTD_freeDStream X dstream w2)
                 else
                   (let in_size = ZSTD_DStreamInSize X;
                        out_size = ZSTD_DStreamOutSize X
                    in case malloc X in_size w2 of
                         (in_buf, w3) \<Rightarrow>
                           (case malloc X out_size w3 of
                              (out_buf, w4) \<Rightarrow>
                                if in_buf = 0 \<or> out_buf = 0 then
                                  Some (1, ZSTD_freeDStream X dstream (free X out_buf (free X in_buf w4)))
                                else
                                  (case read_loop X dstream in_buf in_size out_buf out_size src_fd dst_fd w4 of
                                     None \<Rightarrow> None
                                   | Some (rc, w5) \<Rightarrow>
                                       Some (rc, ZSTD_freeDStream X dstream (free X out_buf (free X in_buf w5))))))))"

declare drain_input.simps [code] read_loop.simps [code]

section \<open>Observing the calls\<close>

text \<open>
  One event for each call of an external function, with its arguments and what it
  returned. \<open>traced X\<close> behaves as \<open>X\<close> and appends every call to a log kept
  beside the state of the world, so running the bridge against \<open>traced X\<close> yields
  the sequence of calls the bridge made.
\<close>

datatype event =
    CreateDStream ptr
  | InitDStream ptr size_t
  | FreeDStream ptr
  | Malloc size_t ptr
  | Free ptr
  | Read c_int ptr size_t ssize_t
  | Write c_int ptr size_t ssize_t
  | DecompressStream ptr ZSTD_outBuffer ZSTD_inBuffer size_t ZSTD_outBuffer ZSTD_inBuffer

definition traced :: "'w extern \<Rightarrow> ('w \<times> event list) extern" where
  "traced X =
     \<lparr> ZSTD_createDStream = (\<lambda>(w, l).
         case ZSTD_createDStream X w of (p, w') \<Rightarrow> (p, (w', l @ [CreateDStream p]))),
       ZSTD_initDStream = (\<lambda>d (w, l).
         case ZSTD_initDStream X d w of (r, w') \<Rightarrow> (r, (w', l @ [InitDStream d r]))),
       ZSTD_isError = ZSTD_isError X,
       ZSTD_freeDStream = (\<lambda>d (w, l). (ZSTD_freeDStream X d w, l @ [FreeDStream d])),
       ZSTD_DStreamInSize = ZSTD_DStreamInSize X,
       ZSTD_DStreamOutSize = ZSTD_DStreamOutSize X,
       ZSTD_decompressStream = (\<lambda>d output input (w, l).
         case ZSTD_decompressStream X d output input w of
           (r, output', input', w') \<Rightarrow>
             (r, output', input', (w', l @ [DecompressStream d output input r output' input']))),
       malloc = (\<lambda>n (w, l). case malloc X n w of (p, w') \<Rightarrow> (p, (w', l @ [Malloc n p]))),
       free = (\<lambda>p (w, l). (free X p w, l @ [Free p])),
       read = (\<lambda>fd buf n (w, l).
         case read X fd buf n w of (r, w') \<Rightarrow> (r, (w', l @ [Read fd buf n r]))),
       write = (\<lambda>fd buf n (w, l).
         case write X fd buf n w of (r, w') \<Rightarrow> (r, (w', l @ [Write fd buf n r]))) \<rparr>"

section \<open>The order of the calls\<close>

text \<open>
  A monitor for the calls of one invocation. A \<open>point\<close> is a place in the C function
  together with the locals that later calls depend on; \<open>Leaving es rc\<close> stands for
  the paths to \<open>return rc\<close>, on which exactly the calls \<open>es\<close> remain.
  \<open>next_call\<close> says which call is allowed at a point and where it leads;
  \<open>follow\<close> runs it along a log.
\<close>

datatype point =
    Entry
  | Created ptr
  | Initialised ptr
  | Allocated_in ptr ptr
  | At_read ptr ptr ptr
  | At_step ptr ptr ptr ZSTD_inBuffer
  | At_write ptr ptr ptr ZSTD_outBuffer ZSTD_inBuffer
  | Leaving "event list" c_int

definition cleanup :: "ptr \<Rightarrow> ptr \<Rightarrow> ptr \<Rightarrow> event list" where
  "cleanup dstream in_buf out_buf = [Free in_buf, Free out_buf, FreeDStream dstream]"

definition resume :: "ptr \<Rightarrow> ptr \<Rightarrow> ptr \<Rightarrow> ZSTD_inBuffer \<Rightarrow> point" where
  "resume dstream in_buf out_buf input =
     (if pos_i input < size_i input then At_step dstream in_buf out_buf input
      else At_read dstream in_buf out_buf)"

fun next_call :: "'w extern \<Rightarrow> c_int \<Rightarrow> c_int \<Rightarrow> point \<Rightarrow> event \<Rightarrow> point option" where
  "next_call X src_fd dst_fd Entry (CreateDStream p) =
     Some (if p = 0 then Leaving [] 1 else Created p)"
| "next_call X src_fd dst_fd (Created dstream) (InitDStream p r) =
     (if p = dstream
      then Some (if ZSTD_isError X r then Leaving [FreeDStream dstream] 1 else Initialised dstream)
      else None)"
| "next_call X src_fd dst_fd (Initialised dstream) (Malloc n p) =
     (if n = ZSTD_DStreamInSize X then Some (Allocated_in dstream p) else None)"
| "next_call X src_fd dst_fd (Allocated_in dstream in_buf) (Malloc n p) =
     (if n = ZSTD_DStreamOutSize X
      then Some (if in_buf = 0 \<or> p = 0 then Leaving (cleanup dstream in_buf p) 1
                 else At_read dstream in_buf p)
      else None)"
| "next_call X src_fd dst_fd (At_read dstream in_buf out_buf) (Read fd buf n r) =
     (if fd = src_fd \<and> buf = in_buf \<and> n = ZSTD_DStreamInSize X
      then Some (if 0 <s r
                 then resume dstream in_buf out_buf \<lparr>src = in_buf, size_i = r, pos_i = 0\<rparr>
                 else Leaving (cleanup dstream in_buf out_buf) (if r <s 0 then 1 else 0))
      else None)"
| "next_call X src_fd dst_fd (At_step dstream in_buf out_buf input)
       (DecompressStream p output0 input0 r output input') =
     (if p = dstream \<and> input0 = input
         \<and> output0 = \<lparr>dst = out_buf, size_o = ZSTD_DStreamOutSize X, pos_o = 0\<rparr>
      then Some (if ZSTD_isError X r then Leaving (cleanup dstream in_buf out_buf) 1
                 else if 0 < pos_o output then At_write dstream in_buf out_buf output input'
                 else resume dstream in_buf out_buf input')
      else None)"
| "next_call X src_fd dst_fd (At_write dstream in_buf out_buf output input') (Write fd buf n r) =
     (if fd = dst_fd \<and> buf = out_buf \<and> n = pos_o output
      then Some (if r \<noteq> pos_o output then Leaving (cleanup dstream in_buf out_buf) 1
                 else resume dstream in_buf out_buf input')
      else None)"
| "next_call X src_fd dst_fd (Leaving (e # es) rc) e' =
     (if e' = e then Some (Leaving es rc) else None)"
| "next_call X src_fd dst_fd _ _ = None"

fun follow :: "'w extern \<Rightarrow> c_int \<Rightarrow> c_int \<Rightarrow> point \<Rightarrow> event list \<Rightarrow> point option" where
  "follow X src_fd dst_fd c [] = Some c"
| "follow X src_fd dst_fd c (e # es) =
     (case next_call X src_fd dst_fd c e of
        None \<Rightarrow> None
      | Some c' \<Rightarrow> follow X src_fd dst_fd c' es)"

text \<open>
  The failures of the transform, read off the calls: no context, initialisation error,
  no memory, codec error, read error, and a write that did not return the size it was
  given.
\<close>

fun failed :: "'w extern \<Rightarrow> event \<Rightarrow> bool" where
  "failed X (CreateDStream p) = (p = 0)"
| "failed X (InitDStream p r) = ZSTD_isError X r"
| "failed X (Malloc n p) = (p = 0)"
| "failed X (DecompressStream p output0 input0 r output input') = ZSTD_isError X r"
| "failed X (Read fd buf n r) = (r <s 0)"
| "failed X (Write fd buf n r) = (r \<noteq> n)"
| "failed X (Free p) = False"
| "failed X (FreeDStream p) = False"

fun is_release :: "event \<Rightarrow> bool" where
  "is_release (Free p) = True"
| "is_release (FreeDStream p) = True"
| "is_release _ = False"

fun is_io :: "event \<Rightarrow> bool" where
  "is_io (Read fd buf n r) = True"
| "is_io (Write fd buf n r) = True"
| "is_io (DecompressStream p output0 input0 r output input') = True"
| "is_io _ = False"

section \<open>A reference environment\<close>

text \<open>
  An in-memory outside world on which the bridge can be run: a heap that hands out a
  bounded number of blocks, memory contents per block, a source descriptor that
  delivers a given sequence of chunks (\<open>None\<close> is a failing read) and then end of
  file, a sink descriptor with bounded room, and a streaming decoder given by a pure
  step function: from the decoder state, the unconsumed input and the room in the
  output buffer it yields the status code, the number of bytes consumed, the bytes
  produced and the next state.
\<close>

record 'd world =
  heap_left :: nat
  next_block :: ptr
  live :: "ptr list"
  mem :: "(ptr \<times> byte list) list"
  init_code :: size_t
  decoder :: 'd
  source_fd :: c_int
  incoming :: "byte list option list"
  sink_fd :: c_int
  sink :: "byte list"
  sink_room :: nat

definition load :: "'d world \<Rightarrow> ptr \<Rightarrow> byte list" where
  "load w p = (case map_of (mem w) p of None \<Rightarrow> [] | Some bs \<Rightarrow> bs)"

definition store :: "ptr \<Rightarrow> byte list \<Rightarrow> 'd world \<Rightarrow> 'd world" where
  "store p bs w = w\<lparr>mem := (p, bs @ drop (length bs) (load w p)) # mem w\<rparr>"

definition alloc :: "size_t \<Rightarrow> 'd world \<Rightarrow> ptr \<times> 'd world" where
  "alloc n w =
     (if heap_left w = 0 then (0, w)
      else (next_block w,
            w\<lparr>heap_left := heap_left w - 1,
              next_block := next_block w + n + 16,
              live := next_block w # live w\<rparr>))"

definition release :: "ptr \<Rightarrow> 'd world \<Rightarrow> 'd world" where
  "release p w = w\<lparr>live := remove1 p (live w)\<rparr>"

definition deliver :: "c_int \<Rightarrow> ptr \<Rightarrow> size_t \<Rightarrow> 'd world \<Rightarrow> ssize_t \<times> 'd world" where
  "deliver fd buf n w =
     (if fd \<noteq> source_fd w then (- 1, w)
      else case incoming w of
             [] \<Rightarrow> (0, w)
           | None # rest \<Rightarrow> (- 1, w\<lparr>incoming := rest\<rparr>)
           | Some bs # rest \<Rightarrow>
               (let k = min (unat n) (length bs)
                in (of_nat k,
                    store buf (take k bs)
                      (w\<lparr>incoming := (if k < length bs then Some (drop k bs) # rest else rest)\<rparr>))))"

definition accept :: "c_int \<Rightarrow> ptr \<Rightarrow> size_t \<Rightarrow> 'd world \<Rightarrow> ssize_t \<times> 'd world" where
  "accept fd buf n w =
     (if fd \<noteq> sink_fd w \<or> (sink_room w = 0 \<and> n \<noteq> 0) then (- 1, w)
      else (let k = min (unat n) (sink_room w)
            in (of_nat k,
                w\<lparr>sink := sink w @ take k (load w buf), sink_room := sink_room w - k\<rparr>)))"

type_synonym 'd decode_step = "'d \<Rightarrow> byte list \<Rightarrow> nat \<Rightarrow> size_t \<times> nat \<times> byte list \<times> 'd"

definition decompress_step ::
  "'d decode_step \<Rightarrow> ptr \<Rightarrow> ZSTD_outBuffer \<Rightarrow> ZSTD_inBuffer \<Rightarrow> 'd world
     \<Rightarrow> size_t \<times> ZSTD_outBuffer \<times> ZSTD_inBuffer \<times> 'd world" where
  "decompress_step dec dstream output input w =
     (let avail = take (unat (size_i input) - unat (pos_i input))
                    (drop (unat (pos_i input)) (load w (src input)));
          room = unat (size_o output) - unat (pos_o output)
      in case dec (decoder w) avail room of
           (r, consumed, produced, d') \<Rightarrow>
             (r,
              output\<lparr>pos_o := pos_o output + of_nat (length produced)\<rparr>,
              input\<lparr>pos_i := pos_i input + of_nat consumed\<rparr>,
              store (dst output) (take (unat (pos_o output)) (load w (dst output)) @ produced)
                (w\<lparr>decoder := d'\<rparr>)))"

definition reference :: "'d decode_step \<Rightarrow> 'd \<Rightarrow> size_t \<Rightarrow> size_t \<Rightarrow> 'd world extern" where
  "reference dec d0 in_size out_size =
     \<lparr> ZSTD_createDStream = alloc 160,
       ZSTD_initDStream = (\<lambda>dstream w. (init_code w, w\<lparr>decoder := d0\<rparr>)),
       ZSTD_isError = (\<lambda>code. - 120 < code),
       ZSTD_freeDStream = release,
       ZSTD_DStreamInSize = in_size,
       ZSTD_DStreamOutSize = out_size,
       ZSTD_decompressStream = decompress_step dec,
       malloc = alloc,
       free = release,
       read = deliver,
       write = accept \<rparr>"

text \<open>
  A small codec for running the bridge: a stream is a sequence of frames, each one
  length byte below 128 followed by that many payload bytes, and decoding yields the
  payloads. The decoder state is the number of payload bytes the current frame still
  owes; the status code is that number after the step, as zstd's hint is, and a length
  byte of 128 or more is a codec error.
\<close>

definition copy_payload :: "nat \<Rightarrow> nat \<Rightarrow> byte list \<Rightarrow> nat \<Rightarrow> size_t \<times> nat \<times> byte list \<times> nat" where
  "copy_payload used k bytes room =
     (let m = min k (min (length bytes) room)
      in (of_nat (k - m), used + m, take m bytes, k - m))"

fun frame_step :: "nat decode_step" where
  "frame_step 0 [] room = (0, 0, [], 0)"
| "frame_step 0 (h # bytes) room =
     (if 128 \<le> h then (- 20, 0, [], 0) else copy_payload 1 (unat h) bytes room)"
| "frame_step (Suc k) bytes room = copy_payload 0 (Suc k) bytes room"

definition frame :: "byte list \<Rightarrow> byte list" where
  "frame B = of_nat (length B) # B"

definition idle :: "byte list option list \<Rightarrow> nat \<Rightarrow> nat \<Rightarrow> nat world" where
  "idle chunks heap room =
     \<lparr> heap_left = heap, next_block = 0x1000, live = [], mem = [], init_code = 0, decoder = 0,
       source_fd = 3, incoming = chunks, sink_fd = 4, sink = [], sink_room = room \<rparr>"

definition tiny :: "nat world extern" where
  "tiny = reference frame_step 0 4 2"

definition observe ::
  "(c_int \<times> 'd world \<times> event list) option \<Rightarrow> (c_int \<times> byte list \<times> event list) option" where
  "observe r = map_option (\<lambda>(rc, w, l). (rc, sink w, l)) r"

text \<open>
  What the monitor's points say about a run so far: \<open>seen_failure\<close> holds at the
  points reached only after a failed call, \<open>sound\<close> holds at the points the
  monitor can reach from \<open>Entry\<close>, and \<open>locals\<close> gives the context and the two
  buffers at the points inside the read loop.
\<close>

fun seen_failure :: "point \<Rightarrow> bool" where
  "seen_failure (Leaving es rc) = (rc \<noteq> 0)"
| "seen_failure (Allocated_in dstream in_buf) = (in_buf = 0)"
| "seen_failure _ = False"

fun sound :: "point \<Rightarrow> bool" where
  "sound (At_step dstream in_buf out_buf input) = (pos_i input < size_i input)"
| "sound (Leaving es rc) = (list_all is_release es \<and> (rc = 0 \<or> rc = 1))"
| "sound _ = True"

fun locals :: "point \<Rightarrow> (ptr \<times> ptr \<times> ptr) option" where
  "locals (At_read dstream in_buf out_buf) = Some (dstream, in_buf, out_buf)"
| "locals (At_step dstream in_buf out_buf input) = Some (dstream, in_buf, out_buf)"
| "locals (At_write dstream in_buf out_buf output input) = Some (dstream, in_buf, out_buf)"
| "locals _ = None"

text \<open>The calls that come after the write that may follow a decompression step.\<close>

fun after_flush :: "event list \<Rightarrow> event list" where
  "after_flush (Write fd buf n r # es) = es"
| "after_flush es = es"





text \<open>
  The calls of runs against the small codec, with buffers of 4 and 2 bytes and the
  frame of the payload 7, 8, 9 as source: the complete run, and the run that stops at
  the first write when that write returns \<open>written\<close> instead of 2.
\<close>

definition log_complete :: "event list" where
  "log_complete =
     [CreateDStream 0x1000, InitDStream 0x1000 0, Malloc 4 0x10B0, Malloc 2 0x10C4,
      Read 3 0x10B0 4 4,
      DecompressStream 0x1000 \<lparr>dst = 0x10C4, size_o = 2, pos_o = 0\<rparr>
        \<lparr>src = 0x10B0, size_i = 4, pos_i = 0\<rparr> 1
        \<lparr>dst = 0x10C4, size_o = 2, pos_o = 2\<rparr> \<lparr>src = 0x10B0, size_i = 4, pos_i = 3\<rparr>,
      Write 4 0x10C4 2 2,
      DecompressStream 0x1000 \<lparr>dst = 0x10C4, size_o = 2, pos_o = 0\<rparr>
        \<lparr>src = 0x10B0, size_i = 4, pos_i = 3\<rparr> 0
        \<lparr>dst = 0x10C4, size_o = 2, pos_o = 1\<rparr> \<lparr>src = 0x10B0, size_i = 4, pos_i = 4\<rparr>,
      Write 4 0x10C4 1 1,
      Read 3 0x10B0 4 0,
      Free 0x10B0, Free 0x10C4, FreeDStream 0x1000]"

definition log_aborted :: "ssize_t \<Rightarrow> event list" where
  "log_aborted written =
     [CreateDStream 0x1000, InitDStream 0x1000 0, Malloc 4 0x10B0, Malloc 2 0x10C4,
      Read 3 0x10B0 4 4,
      DecompressStream 0x1000 \<lparr>dst = 0x10C4, size_o = 2, pos_o = 0\<rparr>
        \<lparr>src = 0x10B0, size_i = 4, pos_i = 0\<rparr> 1
        \<lparr>dst = 0x10C4, size_o = 2, pos_o = 2\<rparr> \<lparr>src = 0x10B0, size_i = 4, pos_i = 3\<rparr>,
      Write 4 0x10C4 2 written,
      Free 0x10B0, Free 0x10C4, FreeDStream 0x1000]"

text \<open>
  The calls of the run on the same frame with its last byte missing.
\<close>

definition log_truncated :: "event list" where
  "log_truncated =
     [CreateDStream 0x1000, InitDStream 0x1000 0, Malloc 4 0x10B0, Malloc 2 0x10C4,
      Read 3 0x10B0 4 3,
      DecompressStream 0x1000 \<lparr>dst = 0x10C4, size_o = 2, pos_o = 0\<rparr>
        \<lparr>src = 0x10B0, size_i = 3, pos_i = 0\<rparr> 1
        \<lparr>dst = 0x10C4, size_o = 2, pos_o = 2\<rparr> \<lparr>src = 0x10B0, size_i = 3, pos_i = 3\<rparr>,
      Write 4 0x10C4 2 2,
      Read 3 0x10B0 4 0,
      Free 0x10B0, Free 0x10C4, FreeDStream 0x1000]"

text \<open>
  What a streaming decoder owes its caller, for one compressed stream \<open>S\<close> and the
  bytes \<open>B\<close> it encodes. \<open>I d i j\<close> says that the decoder in state \<open>d\<close> has consumed
  \<open>i\<close> bytes of \<open>S\<close> and produced \<open>j\<close> bytes of \<open>B\<close>. Offered any non-empty piece
  of the unconsumed stream and room for output, a step reports no error, consumes no
  more than it was offered, produces no more than the room, and what it produces are
  the next bytes of \<open>B\<close>; it consumes or produces something; and it does not consume
  the last byte of \<open>S\<close> before all of \<open>B\<close> is out (zstd documents this for a complete
  frame). The error test is the one of the reference environment.
\<close>

definition decodes ::
  "'d decode_step \<Rightarrow> ('d \<Rightarrow> nat \<Rightarrow> nat \<Rightarrow> bool) \<Rightarrow> 'd \<Rightarrow> byte list \<Rightarrow> byte list \<Rightarrow> bool" where
  "decodes dec I d0 S B \<longleftrightarrow>
     I d0 0 0 \<and> (S = [] \<longrightarrow> B = []) \<and>
     (\<forall>d i j k room. I d i j \<and> 0 < k \<and> i + k \<le> length S \<and> 0 < room \<longrightarrow>
        (case dec d (take k (drop i S)) room of
           (r, c, out, d') \<Rightarrow>
             \<not> - 120 < r \<and> c \<le> k \<and> length out \<le> room
             \<and> take (length out) (drop j B) = out
             \<and> I d' (i + c) (j + length out)
             \<and> (0 < c \<or> out \<noteq> [])
             \<and> (i + c = length S \<longrightarrow> j + length out = length B)))"

text \<open>
  The state of the reference world in the middle of a transform: the decoder is at
  \<open>(i, j)\<close>, the first \<open>j\<close> bytes of \<open>B\<close> are in the sink, and the sink has room for
  the rest.
\<close>

definition streaming ::
  "('d \<Rightarrow> nat \<Rightarrow> nat \<Rightarrow> bool) \<Rightarrow> byte list \<Rightarrow> c_int \<Rightarrow> 'd world \<Rightarrow> nat \<Rightarrow> nat \<Rightarrow> bool" where
  "streaming I B dst_fd w i j \<longleftrightarrow>
     I (decoder w) i j \<and> j \<le> length B \<and> sink w = take j B
     \<and> length B - j \<le> sink_room w \<and> sink_fd w = dst_fd"

text \<open>The same for the small codec and the single frame of \<open>B\<close>.\<close>

definition frame_progress :: "byte list \<Rightarrow> nat \<Rightarrow> nat \<Rightarrow> nat \<Rightarrow> bool" where
  "frame_progress B d i j \<longleftrightarrow>
     (i = 0 \<and> j = 0 \<and> d = 0) \<or> (i = j + 1 \<and> j \<le> length B \<and> d = length B - j)"

text \<open>
  A model of what libarchive's \<open>archive_set_error\<close> does with its arguments: the
  archive object keeps the error number and the message obtained by formatting.
  \<open>record_error\<close> takes the formatter as a parameter; \<open>expand\<close> is a formatter
  that interprets \<open>%s\<close> and \<open>%%\<close> as \<open>printf\<close> does (any other directive
  drops its argument).
\<close>

definition record_error ::
  "(string \<Rightarrow> c_arg list \<Rightarrow> string) \<Rightarrow> ptr \<Rightarrow> c_int \<Rightarrow> string \<Rightarrow> c_arg list
     \<Rightarrow> (ptr \<rightharpoonup> c_int \<times> string) \<Rightarrow> (ptr \<rightharpoonup> c_int \<times> string)" where
  "record_error vsprintf a error_number fmt args errors =
     errors(a \<mapsto> (error_number, vsprintf fmt args))"

fun expand :: "string \<Rightarrow> c_arg list \<Rightarrow> string" where
  "expand [] args = []"
| "expand [c] args = [c]"
| "expand (c # c' # fmt) args =
     (if c \<noteq> CHR ''%'' then c # expand (c' # fmt) args
      else if c' = CHR ''%'' then CHR ''%'' # expand fmt args
      else if c' = CHR ''s'' then
        (case args of Str s # rest \<Rightarrow> s @ expand fmt rest | _ \<Rightarrow> expand fmt (tl args))
      else expand fmt (tl args))"

section \<open>The calls made so far\<close>

text \<open>
  To speak of a run that has come as far as some call, whether or not it goes on to
  return, a list of calls is replayed against the environment: \<open>perform\<close> makes one
  call from a given state of the world and checks that it returns what the event
  records, \<open>replay\<close> does so for a list of calls.
\<close>

fun perform :: "'w extern \<Rightarrow> event \<Rightarrow> 'w \<Rightarrow> 'w option" where
  "perform X (CreateDStream p) w =
     (case ZSTD_createDStream X w of (p', w') \<Rightarrow> if p' = p then Some w' else None)"
| "perform X (InitDStream d r) w =
     (case ZSTD_initDStream X d w of (r', w') \<Rightarrow> if r' = r then Some w' else None)"
| "perform X (FreeDStream d) w = Some (ZSTD_freeDStream X d w)"
| "perform X (Malloc n p) w =
     (case malloc X n w of (p', w') \<Rightarrow> if p' = p then Some w' else None)"
| "perform X (Free p) w = Some (free X p w)"
| "perform X (Read fd buf n r) w =
     (case read X fd buf n w of (r', w') \<Rightarrow> if r' = r then Some w' else None)"
| "perform X (Write fd buf n r) w =
     (case write X fd buf n w of (r', w') \<Rightarrow> if r' = r then Some w' else None)"
| "perform X (DecompressStream d output0 input0 r output input') w =
     (case ZSTD_decompressStream X d output0 input0 w of
        (r', output', input'', w') \<Rightarrow>
          if r' = r \<and> output' = output \<and> input'' = input' then Some w' else None)"

fun replay :: "'w extern \<Rightarrow> event list \<Rightarrow> 'w \<Rightarrow> 'w option" where
  "replay X [] w = Some w"
| "replay X (e # es) w = (case perform X e w of None \<Rightarrow> None | Some w' \<Rightarrow> replay X es w')"

text \<open>
  The rest of the body of \<open>zstd_decompress_fd\<close> from each place where it calls out.
  \<open>released\<close> is the code after the label \<open>done\<close>; \<open>from_read\<close> is the read loop
  and what follows it; \<open>from_drain\<close> is what follows the inner loop (the jump to
  \<open>done\<close>, or the next \<open>read\<close>); the others are the rest of the set-up.
  \<open>continue_from\<close> assigns to each point of the monitor the rest of the call from
  there.
\<close>

definition released :: "'w extern \<Rightarrow> ptr \<Rightarrow> ptr \<Rightarrow> ptr \<Rightarrow> 'w \<Rightarrow> 'w" where
  "released X dstream in_buf out_buf w =
     ZSTD_freeDStream X dstream (free X out_buf (free X in_buf w))"

definition from_read ::
  "'w extern \<Rightarrow> c_int \<Rightarrow> c_int \<Rightarrow> ptr \<Rightarrow> ptr \<Rightarrow> ptr \<Rightarrow> 'w \<Rightarrow> (c_int \<times> 'w) option" where
  "from_read X src_fd dst_fd dstream in_buf out_buf w =
     (case read_loop X dstream in_buf (ZSTD_DStreamInSize X) out_buf (ZSTD_DStreamOutSize X)
             src_fd dst_fd w of
        None \<Rightarrow> None
      | Some (rc, w5) \<Rightarrow> Some (rc, released X dstream in_buf out_buf w5))"

definition from_drain ::
  "'w extern \<Rightarrow> c_int \<Rightarrow> c_int \<Rightarrow> ptr \<Rightarrow> ptr \<Rightarrow> ptr \<Rightarrow> (bool \<times> 'w) option \<Rightarrow> (c_int \<times> 'w) option" where
  "from_drain X src_fd dst_fd dstream in_buf out_buf r =
     (case r of
        None \<Rightarrow> None
      | Some (jumped, w2) \<Rightarrow>
          if jumped then Some (1, released X dstream in_buf out_buf w2)
          else from_read X src_fd dst_fd dstream in_buf out_buf w2)"

definition from_malloc_out ::
  "'w extern \<Rightarrow> c_int \<Rightarrow> c_int \<Rightarrow> ptr \<Rightarrow> ptr \<Rightarrow> 'w \<Rightarrow> (c_int \<times> 'w) option" where
  "from_malloc_out X src_fd dst_fd dstream in_buf w =
     (case malloc X (ZSTD_DStreamOutSize X) w of
        (out_buf, w4) \<Rightarrow>
          if in_buf = 0 \<or> out_buf = 0 then Some (1, released X dstream in_buf out_buf w4)
          else from_read X src_fd dst_fd dstream in_buf out_buf w4)"

definition from_malloc_in ::
  "'w extern \<Rightarrow> c_int \<Rightarrow> c_int \<Rightarrow> ptr \<Rightarrow> 'w \<Rightarrow> (c_int \<times> 'w) option" where
  "from_malloc_in X src_fd dst_fd dstream w =
     (case malloc X (ZSTD_DStreamInSize X) w of
        (in_buf, w3) \<Rightarrow> from_malloc_out X src_fd dst_fd dstream in_buf w3)"

definition from_init ::
  "'w extern \<Rightarrow> c_int \<Rightarrow> c_int \<Rightarrow> ptr \<Rightarrow> 'w \<Rightarrow> (c_int \<times> 'w) option" where
  "from_init X src_fd dst_fd dstream w =
     (case ZSTD_initDStream X dstream w of
        (init_result, w2) \<Rightarrow>
          if ZSTD_isError X init_result then Some (1, ZSTD_freeDStream X dstream w2)
          else from_malloc_in X src_fd dst_fd dstream w2)"

fun continue_from :: "'w extern \<Rightarrow> c_int \<Rightarrow> c_int \<Rightarrow> point \<Rightarrow> 'w \<Rightarrow> (c_int \<times> 'w) option" where
  "continue_from X src_fd dst_fd Entry w = zstd_decompress_fd X src_fd dst_fd w"
| "continue_from X src_fd dst_fd (Created dstream) w = from_init X src_fd dst_fd dstream w"
| "continue_from X src_fd dst_fd (Initialised dstream) w = from_malloc_in X src_fd dst_fd dstream w"
| "continue_from X src_fd dst_fd (Allocated_in dstream in_buf) w =
     from_malloc_out X src_fd dst_fd dstream in_buf w"
| "continue_from X src_fd dst_fd (At_read dstream in_buf out_buf) w =
     from_read X src_fd dst_fd dstream in_buf out_buf w"
| "continue_from X src_fd dst_fd (At_step dstream in_buf out_buf input) w =
     from_drain X src_fd dst_fd dstream in_buf out_buf
       (drain_input X dstream out_buf (ZSTD_DStreamOutSize X) dst_fd input w)"
| "continue_from X src_fd dst_fd (At_write dstream in_buf out_buf output input') w =
     (case write X dst_fd out_buf (pos_o output) w of
        (written, w2) \<Rightarrow>
          if written \<noteq> pos_o output then Some (1, released X dstream in_buf out_buf w2)
          else from_drain X src_fd dst_fd dstream in_buf out_buf
                 (drain_input X dstream out_buf (ZSTD_DStreamOutSize X) dst_fd input' w2))"
| "continue_from X src_fd dst_fd (Leaving es rc) w = map_option (Pair rc) (replay X es w)"

text \<open>
  \<open>makes_calls X src_fd dst_fd w es w'\<close>: started in the world \<open>w\<close>, the calls \<open>es\<close>
  are calls in the order the monitor allows, each returns in the environment \<open>X\<close> what
  its event records, and they leave the world \<open>w'\<close>.
\<close>

definition makes_calls :: "'w extern \<Rightarrow> c_int \<Rightarrow> c_int \<Rightarrow> 'w \<Rightarrow> event list \<Rightarrow> 'w \<Rightarrow> bool" where
  "makes_calls X src_fd dst_fd w es w' \<longleftrightarrow>
     follow X src_fd dst_fd Entry es \<noteq> None \<and> replay X es w = Some w'"




text \<open>
  The calls of the run of \<open>tiny\<close> on a source that delivers two bytes and then fails.
\<close>

definition log_read_error :: "event list" where
  "log_read_error =
     [CreateDStream 0x1000, InitDStream 0x1000 0, Malloc 4 0x10B0, Malloc 2 0x10C4,
      Read 3 0x10B0 4 2,
      DecompressStream 0x1000 \<lparr>dst = 0x10C4, size_o = 2, pos_o = 0\<rparr>
        \<lparr>src = 0x10B0, size_i = 2, pos_i = 0\<rparr> 2
        \<lparr>dst = 0x10C4, size_o = 2, pos_o = 1\<rparr> \<lparr>src = 0x10B0, size_i = 2, pos_i = 2\<rparr>,
      Write 4 0x10C4 1 1,
      Read 3 0x10B0 4 (- 1),
      Free 0x10B0, Free 0x10C4, FreeDStream 0x1000]"

section \<open>Every run follows the monitor\<close>

lemma traced_simps [simp]:
  "ZSTD_createDStream (traced X) (w, l) =
     (case ZSTD_createDStream X w of (p, w') \<Rightarrow> (p, (w', l @ [CreateDStream p])))"
  "ZSTD_initDStream (traced X) d (w, l) =
     (case ZSTD_initDStream X d w of (r, w') \<Rightarrow> (r, (w', l @ [InitDStream d r])))"
  "ZSTD_isError (traced X) = ZSTD_isError X"
  "ZSTD_freeDStream (traced X) d (w, l) = (ZSTD_freeDStream X d w, l @ [FreeDStream d])"
  "ZSTD_DStreamInSize (traced X) = ZSTD_DStreamInSize X"
  "ZSTD_DStreamOutSize (traced X) = ZSTD_DStreamOutSize X"
  "ZSTD_decompressStream (traced X) d output input (w, l) =
     (case ZSTD_decompressStream X d output input w of
        (r, output', input', w') \<Rightarrow>
          (r, output', input', (w', l @ [DecompressStream d output input r output' input'])))"
  "malloc (traced X) n (w, l) = (case malloc X n w of (p, w') \<Rightarrow> (p, (w', l @ [Malloc n p])))"
  "free (traced X) p (w, l) = (free X p w, l @ [Free p])"
  "read (traced X) fd buf n (w, l) =
     (case read X fd buf n w of (r, w') \<Rightarrow> (r, (w', l @ [Read fd buf n r])))"
  "write (traced X) fd buf n (w, l) =
     (case write X fd buf n w of (r, w') \<Rightarrow> (r, (w', l @ [Write fd buf n r])))"
  by (simp_all add: traced_def)

lemmas drain_input_induct = drain_input.raw_induct [rotated, consumes 1, case_names step]
lemmas read_loop_induct = read_loop.raw_induct [rotated, consumes 1, case_names step]

lemma follow_append:
  "follow X src_fd dst_fd c (xs @ ys) =
     (case follow X src_fd dst_fd c xs of
        None \<Rightarrow> None
      | Some c' \<Rightarrow> follow X src_fd dst_fd c' ys)"
  by (induction xs arbitrary: c) (auto split: option.splits)

lemma drain_input_follow:
  "drain_input T dstream out_buf out_size dst_fd input wl = Some res \<Longrightarrow>
   T = traced X \<Longrightarrow> out_size = ZSTD_DStreamOutSize X \<Longrightarrow>
   \<exists>es. snd (snd res) = snd wl @ es \<and>
        follow X src_fd dst_fd (resume dstream in_buf out_buf input) es =
          Some (if fst res then Leaving (cleanup dstream in_buf out_buf) 1
                else At_read dstream in_buf out_buf)"
proof (induction rule: drain_input_induct)
  case (step drain_input T dstream out_buf out_size dst_fd input wl res)
  obtain w l where wl: "wl = (w, l)" by (cases wl)
  note T = step.prems
  show ?case
  proof (cases "pos_i input < size_i input")
    case False
    with step.hyps wl show ?thesis by (auto simp: resume_def)
  next
    case True
    obtain result outp inp' w1 where
      dec: "ZSTD_decompressStream X dstream \<lparr>dst = out_buf, size_o = out_size, pos_o = 0\<rparr> input w
             = (result, outp, inp', w1)"
      by (metis prod_cases4)
    let ?D = "DecompressStream dstream \<lparr>dst = out_buf, size_o = out_size, pos_o = 0\<rparr> input result outp inp'"
    show ?thesis
    proof (cases "ZSTD_isError X result")
      case True
      with step.hyps T \<open>pos_i input < size_i input\<close> dec wl show ?thesis
        by (auto simp: resume_def)
    next
      case noerr: False
      show ?thesis
      proof (cases "0 < pos_o outp")
        case False
        with step.hyps T True dec wl noerr
        have "drain_input T dstream out_buf out_size dst_fd inp' (w1, l @ [?D]) = Some res"
          by simp
        from step.IH [OF this T] obtain es where
          "snd (snd res) = (l @ [?D]) @ es"
          "follow X src_fd dst_fd (resume dstream in_buf out_buf inp') es =
             Some (if fst res then Leaving (cleanup dstream in_buf out_buf) 1
                   else At_read dstream in_buf out_buf)"
          by auto
        with True noerr False wl T show ?thesis
          by (auto simp: resume_def [of _ _ _ input])
      next
        case pos: True
        obtain written w2 where wr: "write X dst_fd out_buf (pos_o outp) w1 = (written, w2)"
          by (cases "write X dst_fd out_buf (pos_o outp) w1")
        let ?W = "Write dst_fd out_buf (pos_o outp) written"
        show ?thesis
        proof (cases "written = pos_o outp")
          case False
          with step.hyps T True dec wl noerr pos wr show ?thesis
            by (auto simp: resume_def [of _ _ _ input])
        next
          case weq: True
          with step.hyps T True dec wl noerr pos wr
          have "drain_input T dstream out_buf out_size dst_fd inp' (w2, l @ [?D, ?W]) = Some res"
            by simp
          from step.IH [OF this T] obtain es where
            "snd (snd res) = (l @ [?D, ?W]) @ es"
            "follow X src_fd dst_fd (resume dstream in_buf out_buf inp') es =
               Some (if fst res then Leaving (cleanup dstream in_buf out_buf) 1
                     else At_read dstream in_buf out_buf)"
            by auto
          with True noerr pos weq wl T show ?thesis
            by (auto simp: resume_def [of _ _ _ input])
        qed
      qed
    qed
  qed
qed

lemma read_loop_follow:
  "read_loop T dstream in_buf in_size out_buf out_size src_fd dst_fd wl = Some res \<Longrightarrow>
   T = traced X \<Longrightarrow> in_size = ZSTD_DStreamInSize X \<Longrightarrow> out_size = ZSTD_DStreamOutSize X \<Longrightarrow>
   \<exists>es. snd (snd res) = snd wl @ es \<and>
        follow X src_fd dst_fd (At_read dstream in_buf out_buf) es =
          Some (Leaving (cleanup dstream in_buf out_buf) (fst res))"
proof (induction rule: read_loop_induct)
  case (step read_loop T dstream in_buf in_size out_buf out_size src_fd dst_fd wl res)
  obtain w l where wl: "wl = (w, l)" by (cases wl)
  note T = step.prems
  obtain bytes_read w1 where rd: "read X src_fd in_buf in_size w = (bytes_read, w1)"
    by (cases "read X src_fd in_buf in_size w")
  let ?R = "Read src_fd in_buf in_size bytes_read"
  show ?case
  proof (cases "0 <s bytes_read")
    case False
    with step.hyps T wl rd
    have "res = (if bytes_read <s 0 then 1 else 0, (w1, l @ [?R]))"
      by auto
    with False wl T show ?thesis
      by auto
  next
    case True
    let ?chunk = "\<lparr>src = in_buf, size_i = bytes_read, pos_i = 0\<rparr>"
    from step.hyps T wl rd True obtain jumped w2 l2 where
      dr: "drain_input T dstream out_buf out_size dst_fd ?chunk (w1, l @ [?R]) = Some (jumped, (w2, l2))"
      and rest: "(if jumped then Some (1, (w2, l2))
                  else read_loop T dstream in_buf in_size out_buf out_size src_fd dst_fd (w2, l2)) = Some res"
      by (auto split: option.splits)
    from drain_input_follow [OF dr T(1) T(3), of src_fd in_buf] obtain es where
      es: "l2 = (l @ [?R]) @ es"
        "follow X src_fd dst_fd (resume dstream in_buf out_buf ?chunk) es =
           Some (if jumped then Leaving (cleanup dstream in_buf out_buf) 1
                 else At_read dstream in_buf out_buf)"
      by auto
    show ?thesis
    proof (cases jumped)
      case True
      with rest es wl T \<open>0 <s bytes_read\<close> show ?thesis
        by (auto simp: follow_append)
    next
      case False
      with rest have "read_loop T dstream in_buf in_size out_buf out_size src_fd dst_fd (w2, l2) = Some res"
        by simp
      from step.IH [OF this T] obtain es' where
        es': "snd (snd res) = l2 @ es'"
          "follow X src_fd dst_fd (At_read dstream in_buf out_buf) es' =
             Some (Leaving (cleanup dstream in_buf out_buf) (fst res))"
        by auto
      have "follow X src_fd dst_fd (At_read dstream in_buf out_buf) (?R # es @ es') =
             Some (Leaving (cleanup dstream in_buf out_buf) (fst res))"
        using True es(2) es'(2) False T by (simp add: follow_append)
      with es(1) es'(1) wl show ?thesis by auto
    qed
  qed
qed

lemma follow_cleanup:
  "follow X src_fd dst_fd (Leaving es rc) es = Some (Leaving [] rc)"
  by (induction es) auto

lemma zstd_decompress_fd_follow:
  assumes "zstd_decompress_fd (traced X) src_fd dst_fd (w, []) = Some (rc, (w', log))"
  shows "follow X src_fd dst_fd Entry log = Some (Leaving [] rc)"
proof -
  obtain dstream w1 where cr: "ZSTD_createDStream X w = (dstream, w1)"
    by (cases "ZSTD_createDStream X w")
  show ?thesis
  proof (cases "dstream = 0")
    case True
    with assms cr show ?thesis
      by (auto simp: zstd_decompress_fd_def)
  next
    case ctx: False
    obtain init_result w2 where ini: "ZSTD_initDStream X dstream w1 = (init_result, w2)"
      by (cases "ZSTD_initDStream X dstream w1")
    show ?thesis
    proof (cases "ZSTD_isError X init_result")
      case True
      with assms cr ctx ini show ?thesis
        by (auto simp: zstd_decompress_fd_def)
    next
      case noerr: False
      obtain in_buf w3 where m1: "malloc X (ZSTD_DStreamInSize X) w2 = (in_buf, w3)"
        by (cases "malloc X (ZSTD_DStreamInSize X) w2")
      obtain out_buf w4 where m2: "malloc X (ZSTD_DStreamOutSize X) w3 = (out_buf, w4)"
        by (cases "malloc X (ZSTD_DStreamOutSize X) w3")
      let ?pre = "[CreateDStream dstream, InitDStream dstream init_result,
         Malloc (ZSTD_DStreamInSize X) in_buf, Malloc (ZSTD_DStreamOutSize X) out_buf]"
      show ?thesis
      proof (cases "in_buf = 0 \<or> out_buf = 0")
        case True
        with assms cr ctx ini noerr m1 m2 have
          "rc = 1" "log = ?pre @ cleanup dstream in_buf out_buf"
          by (auto simp: zstd_decompress_fd_def Let_def cleanup_def)
        with ctx noerr True show ?thesis
          by (auto simp: follow_append follow_cleanup)
      next
        case False
        with assms cr ctx ini noerr m1 m2 obtain w5 l5 where
          rl: "read_loop (traced X) dstream in_buf (ZSTD_DStreamInSize X) out_buf
                 (ZSTD_DStreamOutSize X) src_fd dst_fd (w4, ?pre) = Some (rc, (w5, l5))"
          and lg: "log = l5 @ cleanup dstream in_buf out_buf"
          by (auto simp: zstd_decompress_fd_def Let_def cleanup_def split: option.splits prod.splits)
        from read_loop_follow [OF rl refl refl refl] obtain es where
          "l5 = ?pre @ es"
          "follow X src_fd dst_fd (At_read dstream in_buf out_buf) es =
             Some (Leaving (cleanup dstream in_buf out_buf) rc)"
          by auto
        with ctx noerr False lg show ?thesis
          by (simp add: follow_append follow_cleanup)
      qed
    qed
  qed
qed

lemma reference_simps [simp]:
  "ZSTD_createDStream (reference dec d0 isz osz) = alloc 160"
  "ZSTD_initDStream (reference dec d0 isz osz) = (\<lambda>dstream w. (init_code w, w\<lparr>decoder := d0\<rparr>))"
  "ZSTD_isError (reference dec d0 isz osz) = (\<lambda>code. - 120 < code)"
  "ZSTD_freeDStream (reference dec d0 isz osz) = release"
  "ZSTD_DStreamInSize (reference dec d0 isz osz) = isz"
  "ZSTD_DStreamOutSize (reference dec d0 isz osz) = osz"
  "ZSTD_decompressStream (reference dec d0 isz osz) = decompress_step dec"
  "malloc (reference dec d0 isz osz) = alloc"
  "free (reference dec d0 isz osz) = release"
  "read (reference dec d0 isz osz) = deliver"
  "write (reference dec d0 isz osz) = accept"
  by (simp_all add: reference_def)

section \<open>Tracing does not change the run\<close>

text \<open>
  Against \<open>traced X\<close> the bridge returns exactly when it returns against \<open>X\<close>,
  with the same return code and the same final state of the world; the log is extra.
  So what is proved below about the calls of traced runs is about every run.
\<close>

lemma drain_input_traced:
  "drain_input X dstream out_buf out_size dst_fd input w = Some res \<Longrightarrow>
   \<exists>l'. drain_input (traced X) dstream out_buf out_size dst_fd input (w, l)
          = Some (fst res, (snd res, l'))"
proof (induction arbitrary: l rule: drain_input_induct)
  case (step drain_input X dstream out_buf out_size dst_fd input w res)
  show ?case
  proof (cases "pos_i input < size_i input")
    case False
    with step.hyps show ?thesis
      by (subst drain_input.simps) auto
  next
    case True
    obtain result outp inp' w1 where
      dec: "ZSTD_decompressStream X dstream \<lparr>dst = out_buf, size_o = out_size, pos_o = 0\<rparr> input w
             = (result, outp, inp', w1)"
      by (metis prod_cases4)
    obtain written w2 where wr: "write X dst_fd out_buf (pos_o outp) w1 = (written, w2)"
      by (cases "write X dst_fd out_buf (pos_o outp) w1")
    let ?D = "DecompressStream dstream \<lparr>dst = out_buf, size_o = out_size, pos_o = 0\<rparr> input result outp inp'"
    let ?W = "Write dst_fd out_buf (pos_o outp) written"
    consider (error) "ZSTD_isError X result"
      | (silent) "\<not> ZSTD_isError X result" "\<not> 0 < pos_o outp"
      | (short) "\<not> ZSTD_isError X result" "0 < pos_o outp" "written \<noteq> pos_o outp"
      | (flushed) "\<not> ZSTD_isError X result" "0 < pos_o outp" "written = pos_o outp"
      by blast
    then show ?thesis
    proof cases
      case error
      with step.hyps True dec show ?thesis
        by (subst drain_input.simps) auto
    next
      case silent
      with step.hyps True dec have "drain_input X dstream out_buf out_size dst_fd inp' w1 = Some res"
        by simp
      from step.IH [OF this, of "l @ [?D]"] silent True dec show ?thesis
        by (subst drain_input.simps) auto
    next
      case short
      with step.hyps True dec wr show ?thesis
        by (subst drain_input.simps) auto
    next
      case flushed
      with step.hyps True dec wr have "drain_input X dstream out_buf out_size dst_fd inp' w2 = Some res"
        by simp
      from step.IH [OF this, of "l @ [?D, ?W]"] flushed True dec wr show ?thesis
        by (subst drain_input.simps) auto
    qed
  qed
qed

lemma drain_input_untraced:
  "drain_input T dstream out_buf out_size dst_fd input wl = Some res \<Longrightarrow> T = traced X \<Longrightarrow>
   drain_input X dstream out_buf out_size dst_fd input (fst wl) = Some (fst res, fst (snd res))"
proof (induction rule: drain_input_induct)
  case (step drain_input T dstream out_buf out_size dst_fd input wl res)
  obtain w l where wl: "wl = (w, l)" by (cases wl)
  note T = step.prems
  show ?case
  proof (cases "pos_i input < size_i input")
    case False
    with step.hyps wl show ?thesis
      by (subst drain_input.simps) auto
  next
    case True
    obtain result outp inp' w1 where
      dec: "ZSTD_decompressStream X dstream \<lparr>dst = out_buf, size_o = out_size, pos_o = 0\<rparr> input w
             = (result, outp, inp', w1)"
      by (metis prod_cases4)
    obtain written w2 where wr: "write X dst_fd out_buf (pos_o outp) w1 = (written, w2)"
      by (cases "write X dst_fd out_buf (pos_o outp) w1")
    let ?D = "DecompressStream dstream \<lparr>dst = out_buf, size_o = out_size, pos_o = 0\<rparr> input result outp inp'"
    let ?W = "Write dst_fd out_buf (pos_o outp) written"
    consider (error) "ZSTD_isError X result"
      | (silent) "\<not> ZSTD_isError X result" "\<not> 0 < pos_o outp"
      | (short) "\<not> ZSTD_isError X result" "0 < pos_o outp" "written \<noteq> pos_o outp"
      | (flushed) "\<not> ZSTD_isError X result" "0 < pos_o outp" "written = pos_o outp"
      by blast
    then show ?thesis
    proof cases
      case error
      with step.hyps T True dec wl show ?thesis
        by (subst drain_input.simps) auto
    next
      case silent
      with step.hyps T True dec wl
      have "drain_input T dstream out_buf out_size dst_fd inp' (w1, l @ [?D]) = Some res"
        by simp
      from step.IH [OF this T] silent True dec wl show ?thesis
        by (subst drain_input.simps) auto
    next
      case short
      with step.hyps T True dec wr wl show ?thesis
        by (subst drain_input.simps) auto
    next
      case flushed
      with step.hyps T True dec wr wl
      have "drain_input T dstream out_buf out_size dst_fd inp' (w2, l @ [?D, ?W]) = Some res"
        by simp
      from step.IH [OF this T] flushed True dec wr wl show ?thesis
        by (subst drain_input.simps) auto
    qed
  qed
qed

lemma read_loop_traced:
  "read_loop X dstream in_buf in_size out_buf out_size src_fd dst_fd w = Some res \<Longrightarrow>
   \<exists>l'. read_loop (traced X) dstream in_buf in_size out_buf out_size src_fd dst_fd (w, l)
          = Some (fst res, (snd res, l'))"
proof (induction arbitrary: l rule: read_loop_induct)
  case (step read_loop X dstream in_buf in_size out_buf out_size src_fd dst_fd w res)
  obtain bytes_read w1 where rd: "read X src_fd in_buf in_size w = (bytes_read, w1)"
    by (cases "read X src_fd in_buf in_size w")
  let ?R = "Read src_fd in_buf in_size bytes_read"
  show ?case
  proof (cases "0 <s bytes_read")
    case False
    with step.hyps rd show ?thesis
      by (subst read_loop.simps) auto
  next
    case True
    let ?chunk = "\<lparr>src = in_buf, size_i = bytes_read, pos_i = 0\<rparr>"
    from step.hyps rd True obtain jumped w2 where
      dr: "drain_input X dstream out_buf out_size dst_fd ?chunk w1 = Some (jumped, w2)"
      and rest: "(if jumped then Some (1, w2)
                  else read_loop X dstream in_buf in_size out_buf out_size src_fd dst_fd w2) = Some res"
      by (auto split: option.splits)
    from drain_input_traced [OF dr, of "l @ [?R]"] obtain l2 where
      tr: "drain_input (traced X) dstream out_buf out_size dst_fd ?chunk (w1, l @ [?R])
             = Some (jumped, (w2, l2))"
      by auto
    show ?thesis
    proof (cases jumped)
      case True
      with rest tr rd \<open>0 <s bytes_read\<close> show ?thesis
        by (subst read_loop.simps) auto
    next
      case False
      with rest have "read_loop X dstream in_buf in_size out_buf out_size src_fd dst_fd w2 = Some res"
        by simp
      from step.IH [OF this, of l2] False tr rd \<open>0 <s bytes_read\<close> show ?thesis
        by (subst read_loop.simps) auto
    qed
  qed
qed

lemma read_loop_untraced:
  "read_loop T dstream in_buf in_size out_buf out_size src_fd dst_fd wl = Some res \<Longrightarrow>
   T = traced X \<Longrightarrow>
   read_loop X dstream in_buf in_size out_buf out_size src_fd dst_fd (fst wl)
     = Some (fst res, fst (snd res))"
proof (induction rule: read_loop_induct)
  case (step read_loop T dstream in_buf in_size out_buf out_size src_fd dst_fd wl res)
  obtain w l where wl: "wl = (w, l)" by (cases wl)
  note T = step.prems
  obtain bytes_read w1 where rd: "read X src_fd in_buf in_size w = (bytes_read, w1)"
    by (cases "read X src_fd in_buf in_size w")
  let ?R = "Read src_fd in_buf in_size bytes_read"
  show ?case
  proof (cases "0 <s bytes_read")
    case False
    with step.hyps T wl rd show ?thesis
      by (subst read_loop.simps) auto
  next
    case True
    let ?chunk = "\<lparr>src = in_buf, size_i = bytes_read, pos_i = 0\<rparr>"
    from step.hyps T wl rd True obtain jumped w2 l2 where
      dr: "drain_input T dstream out_buf out_size dst_fd ?chunk (w1, l @ [?R]) = Some (jumped, (w2, l2))"
      and rest: "(if jumped then Some (1, (w2, l2))
                  else read_loop T dstream in_buf in_size out_buf out_size src_fd dst_fd (w2, l2)) = Some res"
      by (auto split: option.splits)
    from drain_input_untraced [OF dr T]
    have pl: "drain_input X dstream out_buf out_size dst_fd ?chunk w1 = Some (jumped, w2)"
      by simp
    show ?thesis
    proof (cases jumped)
      case True
      with rest pl rd wl \<open>0 <s bytes_read\<close> show ?thesis
        by (subst read_loop.simps) auto
    next
      case False
      with rest have "read_loop T dstream in_buf in_size out_buf out_size src_fd dst_fd (w2, l2) = Some res"
        by simp
      from step.IH [OF this T] False pl rd wl \<open>0 <s bytes_read\<close> show ?thesis
        by (subst read_loop.simps) auto
    qed
  qed
qed

lemma traced_run:
  "zstd_decompress_fd X src_fd dst_fd w = Some (rc, w') \<longleftrightarrow>
   (\<exists>log. zstd_decompress_fd (traced X) src_fd dst_fd (w, l) = Some (rc, (w', log)))"
proof -
  obtain dstream w1 where cr: "ZSTD_createDStream X w = (dstream, w1)"
    by (cases "ZSTD_createDStream X w")
  obtain init_result w2 where ini: "ZSTD_initDStream X dstream w1 = (init_result, w2)"
    by (cases "ZSTD_initDStream X dstream w1")
  obtain in_buf w3 where m1: "malloc X (ZSTD_DStreamInSize X) w2 = (in_buf, w3)"
    by (cases "malloc X (ZSTD_DStreamInSize X) w2")
  obtain out_buf w4 where m2: "malloc X (ZSTD_DStreamOutSize X) w3 = (out_buf, w4)"
    by (cases "malloc X (ZSTD_DStreamOutSize X) w3")
  let ?pre = "l @ [CreateDStream dstream, InitDStream dstream init_result,
     Malloc (ZSTD_DStreamInSize X) in_buf, Malloc (ZSTD_DStreamOutSize X) out_buf]"
  let ?plain = "read_loop X dstream in_buf (ZSTD_DStreamInSize X) out_buf (ZSTD_DStreamOutSize X)
     src_fd dst_fd w4"
  let ?traced = "read_loop (traced X) dstream in_buf (ZSTD_DStreamInSize X) out_buf
     (ZSTD_DStreamOutSize X) src_fd dst_fd (w4, ?pre)"
  consider (early) "dstream = 0 \<or> ZSTD_isError X init_result \<or> in_buf = 0 \<or> out_buf = 0"
    | (loop) "dstream \<noteq> 0" "\<not> ZSTD_isError X init_result" "in_buf \<noteq> 0" "out_buf \<noteq> 0"
    by blast
  then show ?thesis
  proof cases
    case early
    with cr ini m1 m2 show ?thesis
      by (auto simp: zstd_decompress_fd_def Let_def)
  next
    case loop
    have plain: "zstd_decompress_fd X src_fd dst_fd w
        = (case ?plain of None \<Rightarrow> None
           | Some (rc, w5) \<Rightarrow> Some (rc, ZSTD_freeDStream X dstream (free X out_buf (free X in_buf w5))))"
      using cr ini m1 m2 loop by (simp add: zstd_decompress_fd_def Let_def)
    have traced: "zstd_decompress_fd (traced X) src_fd dst_fd (w, l)
        = (case ?traced of None \<Rightarrow> None
           | Some (rc, w5) \<Rightarrow>
               Some (rc, ZSTD_freeDStream (traced X) dstream
                           (free (traced X) out_buf (free (traced X) in_buf w5))))"
      using cr ini m1 m2 loop by (simp add: zstd_decompress_fd_def Let_def)
    show ?thesis
    proof
      assume "zstd_decompress_fd X src_fd dst_fd w = Some (rc, w')"
      with plain obtain w5 where
        p: "?plain = Some (rc, w5)" "w' = ZSTD_freeDStream X dstream (free X out_buf (free X in_buf w5))"
        by (auto split: option.splits)
      from read_loop_traced [OF p(1), of ?pre] obtain l5 where "?traced = Some (rc, (w5, l5))"
        by auto
      with traced p(2) show "\<exists>log. zstd_decompress_fd (traced X) src_fd dst_fd (w, l)
          = Some (rc, (w', log))"
        by simp
    next
      assume "\<exists>log. zstd_decompress_fd (traced X) src_fd dst_fd (w, l) = Some (rc, (w', log))"
      with traced obtain w5 l5 where
        t: "?traced = Some (rc, (w5, l5))"
          "w' = ZSTD_freeDStream X dstream (free X out_buf (free X in_buf w5))"
        by (auto split: option.splits)
      from read_loop_untraced [OF t(1) refl] have "?plain = Some (rc, w5)"
        by simp
      with plain t(2) show "zstd_decompress_fd X src_fd dst_fd w = Some (rc, w')"
        by simp
    qed
  qed
qed

section \<open>What the monitor says about a run\<close>

lemma sound_resume [simp]: "sound (resume dstream in_buf out_buf input)"
  by (simp add: resume_def)

lemma seen_failure_resume [simp]: "\<not> seen_failure (resume dstream in_buf out_buf input)"
  by (simp add: resume_def)

lemma release_not_failed: "is_release e \<Longrightarrow> \<not> failed X e"
  by (cases e) auto

lemma next_call_sound:
  "next_call X src_fd dst_fd c e = Some c' \<Longrightarrow> sound c \<Longrightarrow>
   sound c' \<and> (seen_failure c' \<longleftrightarrow> seen_failure c \<or> failed X e)"
  by (cases "(X, src_fd, dst_fd, c, e)" rule: next_call.cases)
     (auto simp: cleanup_def release_not_failed split: if_splits)

lemma follow_sound:
  "follow X src_fd dst_fd c es = Some c' \<Longrightarrow> sound c \<Longrightarrow>
   sound c' \<and> (seen_failure c' \<longleftrightarrow> seen_failure c \<or> list_ex (failed X) es)"
proof (induction es arbitrary: c)
  case Nil
  then show ?case by simp
next
  case (Cons e es)
  from Cons.prems(1) obtain c1 where
    c1: "next_call X src_fd dst_fd c e = Some c1" "follow X src_fd dst_fd c1 es = Some c'"
    by (auto split: option.splits)
  from next_call_sound [OF c1(1) Cons.prems(2)] Cons.IH [OF c1(2)]
  show ?case by auto
qed

lemma follow_split:
  "follow X src_fd dst_fd c (pre @ e # post) = Some c' \<Longrightarrow>
   \<exists>c1 c2. follow X src_fd dst_fd c pre = Some c1 \<and> next_call X src_fd dst_fd c1 e = Some c2
      \<and> follow X src_fd dst_fd c2 post = Some c'"
  by (auto simp: follow_append split: option.splits)

lemma follow_leaving:
  "follow X src_fd dst_fd (Leaving k r) es = Some (Leaving [] rc) \<Longrightarrow> es = k \<and> rc = r"
proof (induction es arbitrary: k)
  case Nil
  then show ?case by simp
next
  case (Cons e es)
  then show ?case
    by (cases k) (auto split: if_splits option.splits)
qed

lemma signed_zero_cases: "\<not> 0 <s (r :: 64 word) \<Longrightarrow> \<not> r <s 0 \<Longrightarrow> r = 0"
  by (simp add: word_sless_alt signed_eq_0_iff)

lemma short_is_mismatch: "0 \<le>s (r :: 64 word) \<Longrightarrow> r < n \<Longrightarrow> r \<noteq> n"
  by auto



lemma positive_read: "0 <s (r :: 64 word) \<Longrightarrow> 0 < r"
  by (simp add: word_gt_0)

lemma next_call_leaving:
  "next_call X src_fd dst_fd (Leaving k r) e = Some c \<Longrightarrow> \<exists>k'. k = e # k' \<and> c = Leaving k' r"
  by (cases k) (auto split: if_splits)

lemma write_mismatch:
  assumes run: "zstd_decompress_fd (traced X) src_fd dst_fd (w, []) = Some (rc, (w', log))"
    and log: "log = pre @ Write fd buf n written # post"
    and ne: "written \<noteq> n"
  shows "rc = 1 \<and> list_all is_release post"
proof -
  from zstd_decompress_fd_follow [OF run] log
  have "follow X src_fd dst_fd Entry (pre @ Write fd buf n written # post) = Some (Leaving [] rc)"
    by simp
  from follow_split [OF this] obtain c1 c2 where
    c1: "follow X src_fd dst_fd Entry pre = Some c1"
    and c2: "next_call X src_fd dst_fd c1 (Write fd buf n written) = Some c2"
    and c3: "follow X src_fd dst_fd c2 post = Some (Leaving [] rc)"
    by blast
  from follow_sound [OF c1] have s1: "sound c1" by simp
  from c2 s1 ne obtain dstream in_buf out_buf where
    "c2 = Leaving (cleanup dstream in_buf out_buf) 1"
    by (cases c1) (auto split: if_splits dest!: next_call_leaving)
  with follow_leaving c3 have "post = cleanup dstream in_buf out_buf" "rc = 1"
    by blast+
  then show ?thesis by (simp add: cleanup_def)
qed

lemma locals_resume [simp]:
  "locals (resume dstream in_buf out_buf input) = Some (dstream, in_buf, out_buf)"
  by (simp add: resume_def)

lemma next_call_entry:
  "next_call X src_fd dst_fd Entry e = Some c \<Longrightarrow>
   \<exists>p. e = CreateDStream p \<and> c = (if p = 0 then Leaving [] 1 else Created p)"
  by (cases e) auto

lemma next_call_created:
  "next_call X src_fd dst_fd (Created dstream) e = Some c \<Longrightarrow>
   \<exists>r. e = InitDStream dstream r
      \<and> c = (if ZSTD_isError X r then Leaving [FreeDStream dstream] 1 else Initialised dstream)"
  by (cases e) (auto split: if_splits)

lemma next_call_initialised:
  "next_call X src_fd dst_fd (Initialised dstream) e = Some c \<Longrightarrow>
   \<exists>p. e = Malloc (ZSTD_DStreamInSize X) p \<and> c = Allocated_in dstream p"
  by (cases e) (auto split: if_splits)

lemma next_call_allocated_in:
  "next_call X src_fd dst_fd (Allocated_in dstream in_buf) e = Some c \<Longrightarrow>
   \<exists>p. e = Malloc (ZSTD_DStreamOutSize X) p
      \<and> c = (if in_buf = 0 \<or> p = 0 then Leaving (cleanup dstream in_buf p) 1
             else At_read dstream in_buf p)"
  by (cases e) (auto split: if_splits)

lemma next_call_at_read:
  "next_call X src_fd dst_fd (At_read dstream in_buf out_buf) e = Some c \<Longrightarrow>
   \<exists>r. e = Read src_fd in_buf (ZSTD_DStreamInSize X) r
      \<and> c = (if 0 <s r
             then resume dstream in_buf out_buf \<lparr>src = in_buf, size_i = r, pos_i = 0\<rparr>
             else Leaving (cleanup dstream in_buf out_buf) (if r <s 0 then 1 else 0))"
  by (cases e) (auto split: if_splits)

lemma next_call_at_step:
  "next_call X src_fd dst_fd (At_step dstream in_buf out_buf input) e = Some c \<Longrightarrow>
   \<exists>r outp inp'.
      e = DecompressStream dstream \<lparr>dst = out_buf, size_o = ZSTD_DStreamOutSize X, pos_o = 0\<rparr>
            input r outp inp'
      \<and> c = (if ZSTD_isError X r then Leaving (cleanup dstream in_buf out_buf) 1
             else if 0 < pos_o outp then At_write dstream in_buf out_buf outp inp'
             else resume dstream in_buf out_buf inp')"
  by (cases e) (auto split: if_splits)

lemma next_call_at_write:
  "next_call X src_fd dst_fd (At_write dstream in_buf out_buf outp inp') e = Some c \<Longrightarrow>
   \<exists>r. e = Write dst_fd out_buf (pos_o outp) r
      \<and> c = (if r \<noteq> pos_o outp then Leaving (cleanup dstream in_buf out_buf) 1
             else resume dstream in_buf out_buf inp')"
  by (cases e) (auto split: if_splits)

lemma follow_Cons:
  "follow X src_fd dst_fd c (e # es) = Some c' \<Longrightarrow>
   \<exists>c1. next_call X src_fd dst_fd c e = Some c1 \<and> follow X src_fd dst_fd c1 es = Some c'"
  by (auto split: option.splits)

lemma follow_nonempty:
  "follow X src_fd dst_fd c es = Some (Leaving [] rc) \<Longrightarrow> \<forall>k r. c \<noteq> Leaving k r \<Longrightarrow>
   \<exists>e es' c1. es = e # es' \<and> next_call X src_fd dst_fd c e = Some c1
      \<and> follow X src_fd dst_fd c1 es' = Some (Leaving [] rc)"
  by (cases es) (auto split: option.splits)





lemma sless_asym: "(r :: 64 word) <s 0 \<Longrightarrow> \<not> 0 <s r"
  by (simp add: word_sless_alt)

lemma next_call_zero:
  "next_call X src_fd dst_fd c e = Some (Leaving k 0) \<Longrightarrow> \<forall>k r. c \<noteq> Leaving k r \<Longrightarrow>
   \<exists>dstream in_buf out_buf. e = Read src_fd in_buf (ZSTD_DStreamInSize X) 0
      \<and> k = cleanup dstream in_buf out_buf"
  by (cases c)
     (auto dest!: next_call_entry next_call_created next_call_initialised next_call_allocated_in
        next_call_at_read next_call_at_step next_call_at_write
        simp: resume_def signed_zero_cases cleanup_def split: if_splits)

lemma zero_exit:
  "follow X src_fd dst_fd c es = Some (Leaving [] 0) \<Longrightarrow> \<forall>k r. c \<noteq> Leaving k r \<Longrightarrow>
   \<exists>pre dstream in_buf out_buf.
      es = pre @ Read src_fd in_buf (ZSTD_DStreamInSize X) 0 # cleanup dstream in_buf out_buf"
proof (induction es arbitrary: c)
  case Nil
  then show ?case by simp
next
  case (Cons e es)
  from follow_Cons [OF Cons.prems(1)] obtain c1 where
    c1: "next_call X src_fd dst_fd c e = Some c1" "follow X src_fd dst_fd c1 es = Some (Leaving [] 0)"
    by blast
  show ?case
  proof (cases "\<exists>k r. c1 = Leaving k r")
    case True
    then obtain k r where k: "c1 = Leaving k r" by blast
    with c1(2) follow_leaving have "es = k" "r = 0" by blast+
    with c1(1) k next_call_zero [OF _ Cons.prems(2)] obtain dstream in_buf out_buf where
      "e = Read src_fd in_buf (ZSTD_DStreamInSize X) 0" "k = cleanup dstream in_buf out_buf"
      by blast
    with \<open>es = k\<close> have "e # es = [] @ Read src_fd in_buf (ZSTD_DStreamInSize X) 0 # cleanup dstream in_buf out_buf"
      by simp
    then show ?thesis by blast
  next
    case False
    then have "\<forall>k r. c1 \<noteq> Leaving k r" by blast
    from Cons.IH [OF c1(2) this] obtain pre dstream in_buf out_buf where
      "es = pre @ Read src_fd in_buf (ZSTD_DStreamInSize X) 0 # cleanup dstream in_buf out_buf"
      by blast
    then have "e # es = (e # pre) @ Read src_fd in_buf (ZSTD_DStreamInSize X) 0 # cleanup dstream in_buf out_buf"
      by simp
    then show ?thesis by blast
  qed
qed

lemma at_event:
  assumes run: "zstd_decompress_fd (traced X) src_fd dst_fd (w, []) = Some (rc, (w', log))"
    and log: "log = pre @ e # post"
  shows "\<exists>c1 c2. follow X src_fd dst_fd Entry pre = Some c1 \<and> sound c1
      \<and> next_call X src_fd dst_fd c1 e = Some c2 \<and> sound c2
      \<and> follow X src_fd dst_fd c2 post = Some (Leaving [] rc)"
proof -
  from zstd_decompress_fd_follow [OF run] log
  have "follow X src_fd dst_fd Entry (pre @ e # post) = Some (Leaving [] rc)"
    by simp
  from follow_split [OF this] obtain c1 c2 where
    c: "follow X src_fd dst_fd Entry pre = Some c1"
       "next_call X src_fd dst_fd c1 e = Some c2"
       "follow X src_fd dst_fd c2 post = Some (Leaving [] rc)"
    by blast
  from follow_sound [OF c(1)] have s1: "sound c1" by simp
  from next_call_sound [OF c(2) s1] have "sound c2" by simp
  with c s1 show ?thesis by blast
qed

lemma release_not_io: "is_release e \<Longrightarrow> \<not> is_io e"
  by (cases e) auto

lemma io_event_point:
  "next_call X src_fd dst_fd c e = Some c' \<Longrightarrow> sound c \<Longrightarrow> is_io e \<Longrightarrow>
   \<exists>dstream in_buf out_buf. locals c = Some (dstream, in_buf, out_buf)"
  by (cases "(X, src_fd, dst_fd, c, e)" rule: next_call.cases)
     (auto simp: release_not_io split: if_splits)



lemma resume_next:
  assumes "follow X src_fd dst_fd (resume dstream in_buf out_buf inp') es = Some (Leaving [] rc)"
  shows "(\<exists>bytes_read rest. es = Read src_fd in_buf (ZSTD_DStreamInSize X) bytes_read # rest
            \<and> size_i inp' \<le> pos_i inp')
       \<or> (\<exists>r2 outp2 inp2 rest.
            es = DecompressStream dstream \<lparr>dst = out_buf, size_o = ZSTD_DStreamOutSize X, pos_o = 0\<rparr>
                   inp' r2 outp2 inp2 # rest
            \<and> pos_i inp' < size_i inp')"
proof (cases "pos_i inp' < size_i inp'")
  case True
  with assms have "follow X src_fd dst_fd (At_step dstream in_buf out_buf inp') es = Some (Leaving [] rc)"
    by (simp add: resume_def)
  from follow_nonempty [OF this] obtain e rest c3 where
    e: "es = e # rest" "next_call X src_fd dst_fd (At_step dstream in_buf out_buf inp') e = Some c3"
    by auto
  from next_call_at_step [OF e(2)] e(1) True show ?thesis by auto
next
  case False
  with assms have "follow X src_fd dst_fd (At_read dstream in_buf out_buf) es = Some (Leaving [] rc)"
    by (simp add: resume_def)
  from follow_nonempty [OF this] obtain e rest c3 where
    e: "es = e # rest" "next_call X src_fd dst_fd (At_read dstream in_buf out_buf) e = Some c3"
    by auto
  from next_call_at_read [OF e(2)] e(1) False show ?thesis by auto
qed

section \<open>Runs in the reference environment\<close>

lemma observed:
  "observe r = Some (rc, out, l) \<Longrightarrow> \<exists>w'. r = Some (rc, (w', l))"
  by (auto simp: observe_def)

lemma run_complete:
  "observe (zstd_decompress_fd (traced tiny) 3 4 (idle [Some (frame [7, 8, 9])] 3 100, []))
     = Some (0, [7, 8, 9], log_complete)"
  by code_simp

lemma run_short:
  "observe (zstd_decompress_fd (traced tiny) 3 4 (idle [Some (frame [7, 8, 9])] 3 1, []))
     = Some (1, [7], log_aborted 1)"
  by code_simp

lemma run_refused:
  "observe (zstd_decompress_fd (traced tiny) 3 4 (idle [Some (frame [7, 8, 9])] 3 0, []))
     = Some (1, [], log_aborted (- 1))"
  by code_simp

section \<open>The rest of a run\<close>

text \<open>
  Once the calls made so far are known, what the call returns is what the rest of its
  body returns from the point reached, in the world those calls have left: each call
  the monitor allows is the next call of the code.
\<close>

lemma entry_unfold:
  "zstd_decompress_fd X src_fd dst_fd w =
     (case ZSTD_createDStream X w of
        (dstream, w1) \<Rightarrow> if dstream = 0 then Some (1, w1) else from_init X src_fd dst_fd dstream w1)"
  by (simp add: zstd_decompress_fd_def from_init_def from_malloc_in_def from_malloc_out_def
      from_read_def released_def Let_def split: prod.splits option.splits)

lemma replay_cleanup [simp]:
  "replay X (cleanup dstream in_buf out_buf) w = Some (released X dstream in_buf out_buf w)"
  by (simp add: cleanup_def released_def)

lemma continue_resume:
  "continue_from X src_fd dst_fd (resume dstream in_buf out_buf input) w =
     from_drain X src_fd dst_fd dstream in_buf out_buf
       (drain_input X dstream out_buf (ZSTD_DStreamOutSize X) dst_fd input w)"
proof (cases "pos_i input < size_i input")
  case True
  then show ?thesis by (simp add: resume_def)
next
  case False
  then have "drain_input X dstream out_buf (ZSTD_DStreamOutSize X) dst_fd input w = Some (False, w)"
    by (subst drain_input.simps) simp
  with False show ?thesis by (simp add: resume_def from_drain_def)
qed

lemma from_read_unfold:
  "from_read X src_fd dst_fd dstream in_buf out_buf w =
     (case read X src_fd in_buf (ZSTD_DStreamInSize X) w of
        (bytes_read, w1) \<Rightarrow>
          if 0 <s bytes_read then
            from_drain X src_fd dst_fd dstream in_buf out_buf
              (drain_input X dstream out_buf (ZSTD_DStreamOutSize X) dst_fd
                 \<lparr>src = in_buf, size_i = bytes_read, pos_i = 0\<rparr> w1)
          else Some (if bytes_read <s 0 then 1 else 0, released X dstream in_buf out_buf w1))"
  unfolding from_read_def
  by (subst read_loop.simps) (simp add: from_drain_def from_read_def split: prod.splits option.splits)

lemma from_step_unfold:
  "pos_i input < size_i input \<Longrightarrow>
   from_drain X src_fd dst_fd dstream in_buf out_buf
       (drain_input X dstream out_buf (ZSTD_DStreamOutSize X) dst_fd input w) =
     (case ZSTD_decompressStream X dstream
             \<lparr>dst = out_buf, size_o = ZSTD_DStreamOutSize X, pos_o = 0\<rparr> input w of
        (result, output, input', w1) \<Rightarrow>
          if ZSTD_isError X result then Some (1, released X dstream in_buf out_buf w1)
          else if 0 < pos_o output then
            continue_from X src_fd dst_fd (At_write dstream in_buf out_buf output input') w1
          else continue_from X src_fd dst_fd (resume dstream in_buf out_buf input') w1)"
  by (subst drain_input.simps) (simp add: from_drain_def continue_resume split: prod.splits)

lemma continue_step:
  assumes "next_call X src_fd dst_fd c e = Some c'" "perform X e w = Some w'" "sound c"
  shows "continue_from X src_fd dst_fd c w = continue_from X src_fd dst_fd c' w'"
proof (cases c)
  case Entry
  with assms show ?thesis
    by (auto dest!: next_call_entry simp: entry_unfold split: prod.splits if_splits)
next
  case (Created dstream)
  with assms show ?thesis
    by (auto dest!: next_call_created simp: from_init_def split: prod.splits if_splits)
next
  case (Initialised dstream)
  with assms show ?thesis
    by (auto dest!: next_call_initialised simp: from_malloc_in_def split: prod.splits if_splits)
next
  case (Allocated_in dstream in_buf)
  with assms show ?thesis
    by (auto dest!: next_call_allocated_in simp: from_malloc_out_def split: prod.splits if_splits)
next
  case (At_read dstream in_buf out_buf)
  with assms show ?thesis
    by (auto dest!: next_call_at_read simp: from_read_unfold continue_resume
        split: prod.splits if_splits)
next
  case (At_step dstream in_buf out_buf input)
  with assms(3) have more: "pos_i input < size_i input" by simp
  from assms(1) [unfolded At_step, THEN next_call_at_step] obtain r outp inp' where
    e: "e = DecompressStream dstream \<lparr>dst = out_buf, size_o = ZSTD_DStreamOutSize X, pos_o = 0\<rparr>
            input r outp inp'"
    and c': "c' = (if ZSTD_isError X r then Leaving (cleanup dstream in_buf out_buf) 1
             else if 0 < pos_o outp then At_write dstream in_buf out_buf outp inp'
             else resume dstream in_buf out_buf inp')"
    by blast
  from assms(2) e have
    "ZSTD_decompressStream X dstream \<lparr>dst = out_buf, size_o = ZSTD_DStreamOutSize X, pos_o = 0\<rparr> input w
       = (r, outp, inp', w')"
    by (auto split: prod.splits if_splits)
  with from_step_unfold [OF more, of X src_fd dst_fd dstream in_buf out_buf w] At_step c'
  show ?thesis by simp
next
  case (At_write dstream in_buf out_buf outp inp')
  with assms show ?thesis
    by (auto dest!: next_call_at_write simp: continue_resume split: prod.splits if_splits)
next
  case (Leaving k rc)
  with assms show ?thesis
    by (auto dest!: next_call_leaving)
qed

lemma continue_follow:
  "follow X src_fd dst_fd c es = Some c' \<Longrightarrow> replay X es w = Some w' \<Longrightarrow> sound c \<Longrightarrow>
   continue_from X src_fd dst_fd c w = continue_from X src_fd dst_fd c' w'"
proof (induction es arbitrary: c w)
  case Nil
  then show ?case by simp
next
  case (Cons e es)
  from follow_Cons [OF Cons.prems(1)] obtain c1 where
    c1: "next_call X src_fd dst_fd c e = Some c1" "follow X src_fd dst_fd c1 es = Some c'"
    by blast
  from Cons.prems(2) obtain w1 where
    w1: "perform X e w = Some w1" "replay X es w1 = Some w'"
    by (auto split: option.splits)
  from next_call_sound [OF c1(1) Cons.prems(3)] have "sound c1" by simp
  from continue_step [OF c1(1) w1(1) Cons.prems(3)] Cons.IH [OF c1(2) w1(2) this]
  show ?case by simp
qed

lemma next_call_traced [simp]:
  "next_call (traced X) src_fd dst_fd c e = next_call X src_fd dst_fd c e"
  by (cases "(X, src_fd, dst_fd, c, e)" rule: next_call.cases) simp_all

lemma follow_traced [simp]:
  "follow (traced X) src_fd dst_fd c es = follow X src_fd dst_fd c es"
  by (induction es arbitrary: c) (simp_all split: option.splits)

lemma released_traced:
  "released (traced X) dstream in_buf out_buf (w, l)
     = (released X dstream in_buf out_buf w, l @ cleanup dstream in_buf out_buf)"
  by (simp add: released_def cleanup_def)

lemma perform_traced:
  "perform (traced X) e (w, l) = map_option (\<lambda>w'. (w', l @ [e])) (perform X e w)"
  by (cases e) (auto split: prod.splits)

lemma replay_traced:
  "replay (traced X) es (w, l) = map_option (\<lambda>w'. (w', l @ es)) (replay X es w)"
proof (induction es arbitrary: w l)
  case Nil
  then show ?case by simp
next
  case (Cons e es)
  then show ?case
    by (cases "perform X e w") (simp_all add: perform_traced)
qed

lemma replay_append:
  "replay X (xs @ ys) w = (case replay X xs w of None \<Rightarrow> None | Some w' \<Rightarrow> replay X ys w')"
  by (induction xs arbitrary: w) (auto split: option.splits)

lemma replay_releases:
  "list_all is_release k \<Longrightarrow> \<exists>w'. replay X k w = Some w'"
proof (induction k arbitrary: w)
  case Nil
  then show ?case by simp
next
  case (Cons e k)
  then show ?case by (cases e) auto
qed

lemma run_continues:
  assumes "makes_calls X src_fd dst_fd w es w1" "follow X src_fd dst_fd Entry es = Some c"
  shows "zstd_decompress_fd X src_fd dst_fd w = continue_from X src_fd dst_fd c w1"
    and "zstd_decompress_fd (traced X) src_fd dst_fd (w, [])
           = continue_from (traced X) src_fd dst_fd c (w1, es)"
proof -
  from assms(1) have r: "replay X es w = Some w1" by (simp add: makes_calls_def)
  from continue_follow [OF assms(2) r]
  show "zstd_decompress_fd X src_fd dst_fd w = continue_from X src_fd dst_fd c w1" by simp
  from r have "replay (traced X) es (w, []) = Some (w1, es)" by (simp add: replay_traced)
  from continue_follow [OF _ this, of src_fd dst_fd Entry c] assms(2)
  show "zstd_decompress_fd (traced X) src_fd dst_fd (w, [])
           = continue_from (traced X) src_fd dst_fd c (w1, es)" by simp
qed

lemma run_leaves:
  assumes "makes_calls X src_fd dst_fd w es w1"
    "follow X src_fd dst_fd Entry es = Some (Leaving (cleanup dstream in_buf out_buf) rc)"
  shows "zstd_decompress_fd (traced X) src_fd dst_fd (w, [])
     = Some (rc, (released X dstream in_buf out_buf w1, es @ cleanup dstream in_buf out_buf))"
  using run_continues(2) [OF assms] by (simp add: released_traced)

lemma calls_end:
  assumes "makes_calls X src_fd dst_fd w (pre @ [e]) w1"
  shows "\<exists>c1 c2. follow X src_fd dst_fd Entry pre = Some c1 \<and> sound c1
      \<and> next_call X src_fd dst_fd c1 e = Some c2 \<and> sound c2
      \<and> follow X src_fd dst_fd Entry (pre @ [e]) = Some c2"
proof -
  from assms obtain c2 where c2: "follow X src_fd dst_fd Entry (pre @ [e]) = Some c2"
    by (auto simp: makes_calls_def)
  then obtain c1 where c1: "follow X src_fd dst_fd Entry pre = Some c1"
    "next_call X src_fd dst_fd c1 e = Some c2"
    by (auto simp: follow_append split: option.splits)
  from follow_sound [OF c1(1)] have s1: "sound c1" by simp
  from next_call_sound [OF c1(2) s1] have "sound c2" by simp
  with c1 c2 s1 show ?thesis by blast
qed

lemma write_mismatch_returns:
  assumes calls: "makes_calls X src_fd dst_fd w (pre @ [Write fd buf n written]) w2"
    and ne: "written \<noteq> n"
  shows "\<exists>dstream in_buf out_buf.
     zstd_decompress_fd (traced X) src_fd dst_fd (w, [])
       = Some (1, (released X dstream in_buf out_buf w2,
                   pre @ Write fd buf n written # cleanup dstream in_buf out_buf))"
proof -
  from calls_end [OF calls] obtain c1 c2 where
    c: "sound c1" "next_call X src_fd dst_fd c1 (Write fd buf n written) = Some c2"
       "follow X src_fd dst_fd Entry (pre @ [Write fd buf n written]) = Some c2"
    by blast
  from c(2,1) ne obtain dstream in_buf out_buf where
    "c2 = Leaving (cleanup dstream in_buf out_buf) 1"
    by (cases c1) (auto split: if_splits dest!: next_call_leaving)
  with run_leaves [OF calls] c(3) show ?thesis by fastforce
qed

lemma read_point:
  assumes calls: "makes_calls X src_fd dst_fd w (pre @ [Read fd buf n bytes_read]) w1"
  shows "\<exists>dstream out_buf. fd = src_fd \<and> n = ZSTD_DStreamInSize X
      \<and> follow X src_fd dst_fd Entry (pre @ [Read fd buf n bytes_read])
          = Some (if 0 <s bytes_read
                  then resume dstream buf out_buf \<lparr>src = buf, size_i = bytes_read, pos_i = 0\<rparr>
                  else Leaving (cleanup dstream buf out_buf) (if bytes_read <s 0 then 1 else 0))"
proof -
  from calls_end [OF calls] obtain c1 c2 where
    c: "sound c1" "next_call X src_fd dst_fd c1 (Read fd buf n bytes_read) = Some c2"
       "follow X src_fd dst_fd Entry (pre @ [Read fd buf n bytes_read]) = Some c2"
    by blast
  from io_event_point [OF c(2,1)] obtain dstream in_buf out_buf where
    "locals c1 = Some (dstream, in_buf, out_buf)" by auto
  with c(2) have c1: "c1 = At_read dstream in_buf out_buf"
    by (cases c1) auto
  from c(2) [unfolded c1, THEN next_call_at_read] c(3)
  show ?thesis by auto
qed


lemma calls_made:
  "follow X src_fd dst_fd Entry es \<noteq> None \<Longrightarrow> map_option f (replay X es w) = Some y \<Longrightarrow>
   \<exists>w1. makes_calls X src_fd dst_fd w es w1"
  by (auto simp: makes_calls_def)


lemma tiny_simps:
  "\<not> ZSTD_isError tiny 1" "ZSTD_DStreamOutSize tiny = 2" "ZSTD_DStreamInSize tiny = 4"
  by (simp_all add: tiny_def reference_def)

text \<open>
  Nothing is left out by speaking of the calls made so far: in a run that returns,
  the calls up to any place of its log are such calls.
\<close>

lemma drain_input_replay:
  "drain_input T dstream out_buf out_size dst_fd input wl = Some res \<Longrightarrow> T = traced X \<Longrightarrow>
   \<exists>es. snd (snd res) = snd wl @ es \<and> replay X es (fst wl) = Some (fst (snd res))"
proof (induction rule: drain_input_induct)
  case (step drain_input T dstream out_buf out_size dst_fd input wl res)
  obtain w l where wl: "wl = (w, l)" by (cases wl)
  note T = step.prems
  show ?case
  proof (cases "pos_i input < size_i input")
    case False
    with step.hyps wl show ?thesis by auto
  next
    case True
    obtain result outp inp' w1 where
      dec: "ZSTD_decompressStream X dstream \<lparr>dst = out_buf, size_o = out_size, pos_o = 0\<rparr> input w
             = (result, outp, inp', w1)"
      by (metis prod_cases4)
    let ?D = "DecompressStream dstream \<lparr>dst = out_buf, size_o = out_size, pos_o = 0\<rparr> input result outp inp'"
    have pd: "perform X ?D w = Some w1"
      using dec by simp
    show ?thesis
    proof (cases "ZSTD_isError X result")
      case True
      with step.hyps T \<open>pos_i input < size_i input\<close> dec wl have "res = (True, (w1, l @ [?D]))"
        by auto
      with pd wl show ?thesis by simp
    next
      case noerr: False
      show ?thesis
      proof (cases "0 < pos_o outp")
        case False
        with step.hyps T True dec wl noerr
        have "drain_input T dstream out_buf out_size dst_fd inp' (w1, l @ [?D]) = Some res"
          by simp
        from step.IH [OF this T] obtain es where
          "snd (snd res) = (l @ [?D]) @ es" "replay X es w1 = Some (fst (snd res))"
          by auto
        with pd wl show ?thesis
          by (intro exI [of _ "?D # es"]) simp
      next
        case pos: True
        obtain written w2 where wr: "write X dst_fd out_buf (pos_o outp) w1 = (written, w2)"
          by (cases "write X dst_fd out_buf (pos_o outp) w1")
        let ?W = "Write dst_fd out_buf (pos_o outp) written"
        have pw: "perform X ?W w1 = Some w2"
          using wr by simp
        show ?thesis
        proof (cases "written = pos_o outp")
          case False
          with step.hyps T True dec wl noerr pos wr have "res = (True, (w2, l @ [?D, ?W]))"
            by auto
          with pd pw wl show ?thesis
            by (intro exI [of _ "[?D, ?W]"]) simp
        next
          case weq: True
          with step.hyps T True dec wl noerr pos wr
          have "drain_input T dstream out_buf out_size dst_fd inp' (w2, l @ [?D, ?W]) = Some res"
            by simp
          from step.IH [OF this T] obtain es where
            "snd (snd res) = (l @ [?D, ?W]) @ es" "replay X es w2 = Some (fst (snd res))"
            by auto
          with pd pw wl show ?thesis
            by (intro exI [of _ "?D # ?W # es"]) simp
        qed
      qed
    qed
  qed
qed

lemma read_loop_replay:
  "read_loop T dstream in_buf in_size out_buf out_size src_fd dst_fd wl = Some res \<Longrightarrow>
   T = traced X \<Longrightarrow>
   \<exists>es. snd (snd res) = snd wl @ es \<and> replay X es (fst wl) = Some (fst (snd res))"
proof (induction rule: read_loop_induct)
  case (step read_loop T dstream in_buf in_size out_buf out_size src_fd dst_fd wl res)
  obtain w l where wl: "wl = (w, l)" by (cases wl)
  note T = step.prems
  obtain bytes_read w1 where rd: "read X src_fd in_buf in_size w = (bytes_read, w1)"
    by (cases "read X src_fd in_buf in_size w")
  let ?R = "Read src_fd in_buf in_size bytes_read"
  have pr: "perform X ?R w = Some w1"
    using rd by simp
  show ?case
  proof (cases "0 <s bytes_read")
    case False
    with step.hyps T wl rd
    have "res = (if bytes_read <s 0 then 1 else 0, (w1, l @ [?R]))"
      by auto
    with pr wl show ?thesis
      by (intro exI [of _ "[?R]"]) simp
  next
    case True
    let ?chunk = "\<lparr>src = in_buf, size_i = bytes_read, pos_i = 0\<rparr>"
    from step.hyps T wl rd True obtain jumped w2 l2 where
      dr: "drain_input T dstream out_buf out_size dst_fd ?chunk (w1, l @ [?R]) = Some (jumped, (w2, l2))"
      and rest: "(if jumped then Some (1, (w2, l2))
                  else read_loop T dstream in_buf in_size out_buf out_size src_fd dst_fd (w2, l2)) = Some res"
      by (auto split: option.splits)
    from drain_input_replay [OF dr T] obtain es where
      es: "l2 = (l @ [?R]) @ es" "replay X es w1 = Some w2"
      by auto
    show ?thesis
    proof (cases jumped)
      case True
      with rest have "res = (1, (w2, l2))" by simp
      with es pr wl show ?thesis
        by (intro exI [of _ "?R # es"]) simp
    next
      case False
      with rest have "read_loop T dstream in_buf in_size out_buf out_size src_fd dst_fd (w2, l2) = Some res"
        by simp
      from step.IH [OF this T] obtain es' where
        es': "snd (snd res) = l2 @ es'" "replay X es' w2 = Some (fst (snd res))"
        by auto
      with es pr wl show ?thesis
        by (intro exI [of _ "?R # es @ es'"]) (simp add: replay_append)
    qed
  qed
qed

lemma zstd_decompress_fd_replay:
  assumes "zstd_decompress_fd (traced X) src_fd dst_fd (w, []) = Some (rc, (w', log))"
  shows "replay X log w = Some w'"
proof -
  obtain dstream w1 where cr: "ZSTD_createDStream X w = (dstream, w1)"
    by (cases "ZSTD_createDStream X w")
  show ?thesis
  proof (cases "dstream = 0")
    case True
    with assms cr show ?thesis
      by (auto simp: zstd_decompress_fd_def)
  next
    case ctx: False
    obtain init_result w2 where ini: "ZSTD_initDStream X dstream w1 = (init_result, w2)"
      by (cases "ZSTD_initDStream X dstream w1")
    show ?thesis
    proof (cases "ZSTD_isError X init_result")
      case True
      with assms cr ctx ini show ?thesis
        by (auto simp: zstd_decompress_fd_def)
    next
      case noerr: False
      obtain in_buf w3 where m1: "malloc X (ZSTD_DStreamInSize X) w2 = (in_buf, w3)"
        by (cases "malloc X (ZSTD_DStreamInSize X) w2")
      obtain out_buf w4 where m2: "malloc X (ZSTD_DStreamOutSize X) w3 = (out_buf, w4)"
        by (cases "malloc X (ZSTD_DStreamOutSize X) w3")
      let ?pre = "[CreateDStream dstream, InitDStream dstream init_result,
         Malloc (ZSTD_DStreamInSize X) in_buf, Malloc (ZSTD_DStreamOutSize X) out_buf]"
      have pre: "replay X ?pre w = Some w4"
        using cr ini m1 m2 by simp
      show ?thesis
      proof (cases "in_buf = 0 \<or> out_buf = 0")
        case True
        with assms cr ctx ini noerr m1 m2 have
          "log = ?pre @ cleanup dstream in_buf out_buf" "w' = released X dstream in_buf out_buf w4"
          by (auto simp: zstd_decompress_fd_def Let_def cleanup_def released_def)
        with pre show ?thesis
          by (simp only: replay_append replay_cleanup option.case)
      next
        case False
        with assms cr ctx ini noerr m1 m2 obtain w5 l5 where
          rl: "read_loop (traced X) dstream in_buf (ZSTD_DStreamInSize X) out_buf
                 (ZSTD_DStreamOutSize X) src_fd dst_fd (w4, ?pre) = Some (rc, (w5, l5))"
          and lg: "log = l5 @ cleanup dstream in_buf out_buf"
            "w' = released X dstream in_buf out_buf w5"
          by (auto simp: zstd_decompress_fd_def Let_def cleanup_def released_def
              split: option.splits prod.splits)
        from read_loop_replay [OF rl refl] obtain es where
          "l5 = ?pre @ es" "replay X es w4 = Some w5"
          by auto
        with pre lg show ?thesis
          by (simp only: replay_append replay_cleanup option.case)
      qed
    qed
  qed
qed

lemma run_makes_calls:
  assumes run: "zstd_decompress_fd (traced X) src_fd dst_fd (w, []) = Some (rc, (w', log))"
    and log: "log = pre @ post"
  shows "\<exists>w1. makes_calls X src_fd dst_fd w pre w1"
proof -
  from zstd_decompress_fd_follow [OF run] log
  have "follow X src_fd dst_fd Entry pre \<noteq> None"
    by (auto simp: follow_append split: option.splits)
  moreover from zstd_decompress_fd_replay [OF run] log
  have "\<exists>w1. replay X pre w = Some w1"
    by (auto simp: replay_append split: option.splits)
  ultimately show ?thesis
    by (auto simp: makes_calls_def)
qed

section \<open>Failures during setup\<close>

text \<open>
  Claim C5. If \<open>ZSTD_createDStream\<close> returns \<open>NULL\<close> the call returns 1 having made
  no other call, so no buffer was allocated. If \<open>ZSTD_initDStream\<close> reports an error
  the context is freed and the call returns 1. If one of the two \<open>malloc\<close> calls
  returns \<open>NULL\<close>, both pointers are passed to \<open>free\<close>, the context is freed and
  the call returns 1. In the three cases the calls made are exactly the ones listed:
  there is no \<open>write\<close> among them.
\<close>

theorem setup_failures:
  "(ZSTD_createDStream X w = (0, w1) \<longrightarrow>
      zstd_decompress_fd (traced X) src_fd dst_fd (w, []) = Some (1, (w1, [CreateDStream 0])))
   \<and> (ZSTD_createDStream X w = (dstream, w1) \<and> dstream \<noteq> 0
        \<and> ZSTD_initDStream X dstream w1 = (init_result, w2) \<and> ZSTD_isError X init_result \<longrightarrow>
      zstd_decompress_fd (traced X) src_fd dst_fd (w, []) =
        Some (1, (ZSTD_freeDStream X dstream w2,
                  [CreateDStream dstream, InitDStream dstream init_result, FreeDStream dstream])))
   \<and> (ZSTD_createDStream X w = (dstream, w1) \<and> dstream \<noteq> 0
        \<and> ZSTD_initDStream X dstream w1 = (init_result, w2) \<and> \<not> ZSTD_isError X init_result
        \<and> malloc X (ZSTD_DStreamInSize X) w2 = (in_buf, w3)
        \<and> malloc X (ZSTD_DStreamOutSize X) w3 = (out_buf, w4)
        \<and> (in_buf = 0 \<or> out_buf = 0) \<longrightarrow>
      zstd_decompress_fd (traced X) src_fd dst_fd (w, []) =
        Some (1, (ZSTD_freeDStream X dstream (free X out_buf (free X in_buf w4)),
                  [CreateDStream dstream, InitDStream dstream init_result,
                   Malloc (ZSTD_DStreamInSize X) in_buf, Malloc (ZSTD_DStreamOutSize X) out_buf,
                   Free in_buf, Free out_buf, FreeDStream dstream])))"
  by (auto simp: zstd_decompress_fd_def Let_def)

theorem setup_failures_witness:
  "observe (zstd_decompress_fd (traced tiny) 3 4 (idle [Some (frame [7, 8, 9])] 0 100, []))
     = Some (1, [], [CreateDStream 0])
   \<and> observe (zstd_decompress_fd (traced tiny) 3 4
        ((idle [Some (frame [7, 8, 9])] 3 100)\<lparr>init_code := - 1\<rparr>, []))
     = Some (1, [], [CreateDStream 0x1000, InitDStream 0x1000 (- 1), FreeDStream 0x1000])
   \<and> observe (zstd_decompress_fd (traced tiny) 3 4 (idle [Some (frame [7, 8, 9])] 2 100, []))
     = Some (1, [], [CreateDStream 0x1000, InitDStream 0x1000 0, Malloc 4 0x10B0, Malloc 2 0,
                     Free 0x10B0, Free 0, FreeDStream 0x1000])"
proof -
  let ?w = "idle [Some (frame [7, 8, 9])]"
  have a: "ZSTD_createDStream tiny (?w 0 100) = (0, ?w 0 100)"
    by (simp add: tiny_def alloc_def idle_def)
  have b: "ZSTD_createDStream tiny ((?w 3 100)\<lparr>init_code := - 1\<rparr>)
             = (0x1000, (?w 2 100)\<lparr>init_code := - 1, next_block := 0x10B0, live := [0x1000]\<rparr>)
           \<and> (0x1000 :: ptr) \<noteq> 0
           \<and> ZSTD_initDStream tiny 0x1000
                ((?w 2 100)\<lparr>init_code := - 1, next_block := 0x10B0, live := [0x1000]\<rparr>)
             = (- 1, (?w 2 100)\<lparr>init_code := - 1, next_block := 0x10B0, live := [0x1000]\<rparr>)
           \<and> ZSTD_isError tiny (- 1)"
    by (simp add: tiny_def alloc_def idle_def)
  have c: "ZSTD_createDStream tiny (?w 2 100)
             = (0x1000, (?w 1 100)\<lparr>next_block := 0x10B0, live := [0x1000]\<rparr>)
           \<and> (0x1000 :: ptr) \<noteq> 0
           \<and> ZSTD_initDStream tiny 0x1000 ((?w 1 100)\<lparr>next_block := 0x10B0, live := [0x1000]\<rparr>)
             = (0, (?w 1 100)\<lparr>next_block := 0x10B0, live := [0x1000]\<rparr>)
           \<and> \<not> ZSTD_isError tiny 0
           \<and> malloc tiny (ZSTD_DStreamInSize tiny) ((?w 1 100)\<lparr>next_block := 0x10B0, live := [0x1000]\<rparr>)
             = (0x10B0, (?w 0 100)\<lparr>next_block := 0x10C4, live := [0x10B0, 0x1000]\<rparr>)
           \<and> malloc tiny (ZSTD_DStreamOutSize tiny) ((?w 0 100)\<lparr>next_block := 0x10C4, live := [0x10B0, 0x1000]\<rparr>)
             = (0, (?w 0 100)\<lparr>next_block := 0x10C4, live := [0x10B0, 0x1000]\<rparr>)
           \<and> ((0x10B0 :: ptr) = 0 \<or> (0 :: ptr) = 0)"
    by (simp add: tiny_def alloc_def idle_def)
  note A = setup_failures [THEN conjunct1, rule_format, OF a, of 3 4]
  note B = setup_failures [THEN conjunct2, THEN conjunct1, rule_format, OF b, of 3 4]
  note C = setup_failures [THEN conjunct2, THEN conjunct2, rule_format, OF c, of 3 4]
  show ?thesis
    unfolding A B C
    by (simp add: observe_def tiny_def release_def idle_def)
qed

section \<open>Release of the context and the buffers\<close>



section \<open>Short writes\<close>

text \<open>
  Claim C3. Whenever the call has come to a \<open>write\<close> that returns a count that is
  not negative and is smaller than the size it was given, the call returns, its
  return code is 1, and the calls it makes after that write are the three release
  calls and nothing else: no further \<open>read\<close> and no further decompression step.
\<close>

theorem short_write_aborts:
  assumes "makes_calls X src_fd dst_fd w (pre @ [Write fd buf n written]) w2"
    and "0 \<le>s written" and "written < n"
  shows "\<exists>dstream in_buf out_buf.
     zstd_decompress_fd (traced X) src_fd dst_fd (w, [])
       = Some (1, (released X dstream in_buf out_buf w2,
                   pre @ Write fd buf n written # cleanup dstream in_buf out_buf))"
  using write_mismatch_returns [OF assms(1)] short_is_mismatch [OF assms(2,3)] by simp

theorem short_write_aborts_witness:
  "\<exists>w2 dstream in_buf out_buf.
     makes_calls tiny 3 4 (idle [Some (frame [7, 8, 9])] 3 1)
       (take 6 (log_aborted 1) @ [Write 4 0x10C4 2 1]) w2
   \<and> (0 :: ssize_t) \<le>s 1 \<and> (1 :: ssize_t) < 2
   \<and> zstd_decompress_fd (traced tiny) 3 4 (idle [Some (frame [7, 8, 9])] 3 1, [])
       = Some (1, (released tiny dstream in_buf out_buf w2,
                   take 6 (log_aborted 1) @ Write 4 0x10C4 2 1 # cleanup dstream in_buf out_buf))"
proof -
  have f: "follow tiny 3 4 Entry (take 6 (log_aborted 1) @ [Write 4 0x10C4 2 1]) \<noteq> None"
    by code_simp
  have r: "map_option sink (replay tiny (take 6 (log_aborted 1) @ [Write 4 0x10C4 2 1])
      (idle [Some (frame [7, 8, 9])] 3 1)) = Some [7]"
    by code_simp
  from calls_made [OF f r] obtain w2 where
    calls: "makes_calls tiny 3 4 (idle [Some (frame [7, 8, 9])] 3 1)
       (take 6 (log_aborted 1) @ [Write 4 0x10C4 2 1]) w2" ..
  have short: "(0 :: ssize_t) \<le>s 1" "(1 :: ssize_t) < 2"
    by (simp_all add: word_sle_eq)
  from short_write_aborts [OF calls short] obtain dstream in_buf out_buf where
    run: "zstd_decompress_fd (traced tiny) 3 4 (idle [Some (frame [7, 8, 9])] 3 1, [])
       = Some (1, (released tiny dstream in_buf out_buf w2,
                   take 6 (log_aborted 1) @ Write 4 0x10C4 2 1 # cleanup dstream in_buf out_buf))"
    by (elim exE)
  show ?thesis
    by (intro exI conjI) (rule calls short run)+
qed

section \<open>The results of read\<close>

text \<open>
  Claim C4. A return code of 0 is reached only through a \<open>read\<close> that returned 0,
  followed by the release calls alone. Whenever the call has come to a \<open>read\<close>:
  if it returns 0, the call returns 0 after the release calls; if it returns a
  negative value, the call returns 1 after the release calls; and if it returns
  \<open>n > 0\<close>, the call goes on as the inner loop does on the input chunk of size \<open>n\<close>
  with cursor 0 in the buffer that was read into.
\<close>

theorem read_results:
  "(\<forall>w' log. zstd_decompress_fd (traced X) src_fd dst_fd (w, []) = Some (0, (w', log)) \<longrightarrow>
      (\<exists>pre dstream in_buf out_buf.
         log = pre @ Read src_fd in_buf (ZSTD_DStreamInSize X) 0 # cleanup dstream in_buf out_buf))
   \<and> (\<forall>pre fd buf n bytes_read w1.
        makes_calls X src_fd dst_fd w (pre @ [Read fd buf n bytes_read]) w1 \<longrightarrow>
          (bytes_read = 0 \<longrightarrow>
             (\<exists>dstream out_buf.
                zstd_decompress_fd (traced X) src_fd dst_fd (w, [])
                  = Some (0, (released X dstream buf out_buf w1,
                              pre @ Read fd buf n bytes_read # cleanup dstream buf out_buf))))
        \<and> (bytes_read <s 0 \<longrightarrow>
             (\<exists>dstream out_buf.
                zstd_decompress_fd (traced X) src_fd dst_fd (w, [])
                  = Some (1, (released X dstream buf out_buf w1,
                              pre @ Read fd buf n bytes_read # cleanup dstream buf out_buf))))
        \<and> (0 <s bytes_read \<longrightarrow>
             (\<exists>dstream out_buf.
                zstd_decompress_fd X src_fd dst_fd w
                  = from_drain X src_fd dst_fd dstream buf out_buf
                      (drain_input X dstream out_buf (ZSTD_DStreamOutSize X) dst_fd
                         \<lparr>src = buf, size_i = bytes_read, pos_i = 0\<rparr> w1))))"
proof (intro conjI impI allI)
  fix w' log
  assume "zstd_decompress_fd (traced X) src_fd dst_fd (w, []) = Some (0, (w', log))"
  from zstd_decompress_fd_follow [OF this] zero_exit [of X src_fd dst_fd Entry log]
  show "\<exists>pre dstream in_buf out_buf.
      log = pre @ Read src_fd in_buf (ZSTD_DStreamInSize X) 0 # cleanup dstream in_buf out_buf"
    by simp
next
  fix pre fd buf n bytes_read w1
  assume calls: "makes_calls X src_fd dst_fd w (pre @ [Read fd buf n bytes_read]) w1"
  from read_point [OF calls] obtain dstream out_buf where
    c: "follow X src_fd dst_fd Entry (pre @ [Read fd buf n bytes_read])
          = Some (if 0 <s bytes_read
                  then resume dstream buf out_buf \<lparr>src = buf, size_i = bytes_read, pos_i = 0\<rparr>
                  else Leaving (cleanup dstream buf out_buf) (if bytes_read <s 0 then 1 else 0))"
    by blast
  {
    assume "bytes_read = 0"
    with c have "follow X src_fd dst_fd Entry (pre @ [Read fd buf n bytes_read])
        = Some (Leaving (cleanup dstream buf out_buf) 0)"
      by simp
    from run_leaves [OF calls this]
    show "\<exists>dstream out_buf.
        zstd_decompress_fd (traced X) src_fd dst_fd (w, [])
          = Some (0, (released X dstream buf out_buf w1,
                      pre @ Read fd buf n bytes_read # cleanup dstream buf out_buf))"
      by auto
  }
  {
    assume "bytes_read <s 0"
    with c sless_asym have "follow X src_fd dst_fd Entry (pre @ [Read fd buf n bytes_read])
        = Some (Leaving (cleanup dstream buf out_buf) 1)"
      by simp
    from run_leaves [OF calls this]
    show "\<exists>dstream out_buf.
        zstd_decompress_fd (traced X) src_fd dst_fd (w, [])
          = Some (1, (released X dstream buf out_buf w1,
                      pre @ Read fd buf n bytes_read # cleanup dstream buf out_buf))"
      by auto
  }
  {
    assume "0 <s bytes_read"
    with c have "follow X src_fd dst_fd Entry (pre @ [Read fd buf n bytes_read])
        = Some (resume dstream buf out_buf \<lparr>src = buf, size_i = bytes_read, pos_i = 0\<rparr>)"
      by simp
    from run_continues(1) [OF calls this]
    show "\<exists>dstream out_buf.
        zstd_decompress_fd X src_fd dst_fd w
          = from_drain X src_fd dst_fd dstream buf out_buf
              (drain_input X dstream out_buf (ZSTD_DStreamOutSize X) dst_fd
                 \<lparr>src = buf, size_i = bytes_read, pos_i = 0\<rparr> w1)"
      by (auto simp: continue_resume)
  }
qed

theorem read_results_witness:
  "(\<exists>pre dstream in_buf out_buf.
      log_complete = pre @ Read 3 in_buf 4 0 # cleanup dstream in_buf out_buf)
   \<and> (\<exists>w1 dstream out_buf.
        makes_calls tiny 3 4 (idle [Some (frame [7, 8, 9])] 3 100)
          (take 9 log_complete @ [Read 3 0x10B0 4 0]) w1
      \<and> zstd_decompress_fd (traced tiny) 3 4 (idle [Some (frame [7, 8, 9])] 3 100, [])
          = Some (0, (released tiny dstream 0x10B0 out_buf w1,
                      take 9 log_complete @ Read 3 0x10B0 4 0 # cleanup dstream 0x10B0 out_buf)))
   \<and> (\<exists>w1 dstream out_buf.
        makes_calls tiny 3 4 (idle [Some [3, 7], None] 3 100)
          (take 7 log_read_error @ [Read 3 0x10B0 4 (- 1)]) w1
      \<and> (- 1 :: ssize_t) <s 0
      \<and> zstd_decompress_fd (traced tiny) 3 4 (idle [Some [3, 7], None] 3 100, [])
          = Some (1, (released tiny dstream 0x10B0 out_buf w1,
                      take 7 log_read_error @ Read 3 0x10B0 4 (- 1)
                        # cleanup dstream 0x10B0 out_buf)))
   \<and> (\<exists>w1 dstream out_buf.
        makes_calls tiny 3 4 (idle [Some (frame [7, 8, 9])] 3 100)
          (take 4 log_complete @ [Read 3 0x10B0 4 4]) w1
      \<and> 0 <s (4 :: ssize_t)
      \<and> zstd_decompress_fd tiny 3 4 (idle [Some (frame [7, 8, 9])] 3 100)
          = from_drain tiny 3 4 dstream 0x10B0 out_buf
              (drain_input tiny dstream out_buf 2 4 \<lparr>src = 0x10B0, size_i = 4, pos_i = 0\<rparr> w1))"
proof -
  let ?W = "idle [Some (frame [7, 8, 9])] 3 100"
  let ?E = "idle [Some [3, 7], None] 3 100"
  note r = read_results [of tiny 3 4 ?W]
  from observed [OF run_complete] obtain w' where
    run: "zstd_decompress_fd (traced tiny) 3 4 (?W, []) = Some (0, (w', log_complete))" ..
  note a = r [THEN conjunct1, rule_format, OF run, unfolded tiny_simps]
  have f1: "follow tiny 3 4 Entry (take 9 log_complete @ [Read 3 0x10B0 4 0]) \<noteq> None"
    by code_simp
  have r1: "map_option sink (replay tiny (take 9 log_complete @ [Read 3 0x10B0 4 0]) ?W)
      = Some [7, 8, 9]"
    by code_simp
  from calls_made [OF f1 r1] obtain w1 where
    zero: "makes_calls tiny 3 4 ?W (take 9 log_complete @ [Read 3 0x10B0 4 0]) w1" ..
  from r [THEN conjunct2, rule_format, OF zero, THEN conjunct1, rule_format, OF refl]
  obtain ds1 b1 where
    run1: "zstd_decompress_fd (traced tiny) 3 4 (?W, [])
          = Some (0, (released tiny ds1 0x10B0 b1 w1,
                      take 9 log_complete @ Read 3 0x10B0 4 0 # cleanup ds1 0x10B0 b1))"
    by (elim exE)
  have b: "\<exists>w1 dstream out_buf.
        makes_calls tiny 3 4 ?W (take 9 log_complete @ [Read 3 0x10B0 4 0]) w1
      \<and> zstd_decompress_fd (traced tiny) 3 4 (?W, [])
          = Some (0, (released tiny dstream 0x10B0 out_buf w1,
                      take 9 log_complete @ Read 3 0x10B0 4 0 # cleanup dstream 0x10B0 out_buf))"
    by (intro exI conjI) (rule zero run1)+
  have f2: "follow tiny 3 4 Entry (take 7 log_read_error @ [Read 3 0x10B0 4 (- 1)]) \<noteq> None"
    by code_simp
  have r2: "map_option sink (replay tiny (take 7 log_read_error @ [Read 3 0x10B0 4 (- 1)]) ?E)
      = Some [7]"
    by code_simp
  from calls_made [OF f2 r2] obtain w2 where
    err: "makes_calls tiny 3 4 ?E (take 7 log_read_error @ [Read 3 0x10B0 4 (- 1)]) w2" ..
  have neg: "(- 1 :: ssize_t) <s 0"
    by (simp add: word_sless_alt)
  from read_results [of tiny 3 4 ?E, THEN conjunct2, rule_format, OF err,
      THEN conjunct2, THEN conjunct1, rule_format, OF neg]
  obtain ds2 b2 where
    run2: "zstd_decompress_fd (traced tiny) 3 4 (?E, [])
          = Some (1, (released tiny ds2 0x10B0 b2 w2,
                      take 7 log_read_error @ Read 3 0x10B0 4 (- 1) # cleanup ds2 0x10B0 b2))"
    by (elim exE)
  have c: "\<exists>w1 dstream out_buf.
        makes_calls tiny 3 4 ?E (take 7 log_read_error @ [Read 3 0x10B0 4 (- 1)]) w1
      \<and> (- 1 :: ssize_t) <s 0
      \<and> zstd_decompress_fd (traced tiny) 3 4 (?E, [])
          = Some (1, (released tiny dstream 0x10B0 out_buf w1,
                      take 7 log_read_error @ Read 3 0x10B0 4 (- 1)
                        # cleanup dstream 0x10B0 out_buf))"
    by (intro exI conjI) (rule err neg run2)+
  have f3: "follow tiny 3 4 Entry (take 4 log_complete @ [Read 3 0x10B0 4 4]) \<noteq> None"
    by code_simp
  have r3: "map_option sink (replay tiny (take 4 log_complete @ [Read 3 0x10B0 4 4]) ?W)
      = Some []"
    by code_simp
  from calls_made [OF f3 r3] obtain w3 where
    some: "makes_calls tiny 3 4 ?W (take 4 log_complete @ [Read 3 0x10B0 4 4]) w3" ..
  have pos: "0 <s (4 :: ssize_t)"
    by (simp add: word_sless_alt)
  from r [THEN conjunct2, rule_format, OF some, THEN conjunct2, THEN conjunct2, rule_format, OF pos,
      unfolded tiny_simps]
  obtain ds3 b3 where
    run3: "zstd_decompress_fd tiny 3 4 ?W
          = from_drain tiny 3 4 ds3 0x10B0 b3
              (drain_input tiny ds3 b3 2 4 \<lparr>src = 0x10B0, size_i = 4, pos_i = 0\<rparr> w3)"
    by (elim exE)
  have d: "\<exists>w1 dstream out_buf.
        makes_calls tiny 3 4 ?W (take 4 log_complete @ [Read 3 0x10B0 4 4]) w1
      \<and> 0 <s (4 :: ssize_t)
      \<and> zstd_decompress_fd tiny 3 4 ?W
          = from_drain tiny 3 4 dstream 0x10B0 out_buf
              (drain_input tiny dstream out_buf 2 4 \<lparr>src = 0x10B0, size_i = 4, pos_i = 0\<rparr> w1)"
    by (intro exI conjI) (rule some pos run3)+
  show ?thesis
    by (intro conjI) (rule a b c d)+
qed

section \<open>Decompression steps\<close>




section \<open>The return code\<close>

text \<open>
  Every failure the code tests for gives the return code 1: whenever the call has
  come to a call that failed (context creation, initialisation, allocation, a
  decompression step, a read, a write), it returns 1.
\<close>

lemma failure_returns:
  assumes calls: "makes_calls X src_fd dst_fd w (pre @ [e]) w1" and failed: "failed X e"
  shows "\<exists>w'. zstd_decompress_fd X src_fd dst_fd w = Some (1, w')"
proof -
  from calls_end [OF calls] obtain c1 c2 where
    c: "sound c1" "next_call X src_fd dst_fd c1 e = Some c2" "sound c2"
       "follow X src_fd dst_fd Entry (pre @ [e]) = Some c2"
    by blast
  from next_call_sound [OF c(2,1)] failed have seen: "seen_failure c2" by simp
  note run = run_continues(1) [OF calls c(4)]
  from seen show ?thesis
  proof (cases c2)
    case (Leaving k rc)
    with seen c(3) have "rc = 1" "list_all is_release k" by auto
    with replay_releases [of k X w1] Leaving run show ?thesis by auto
  next
    case (Allocated_in dstream in_buf)
    with seen run show ?thesis
      by (auto simp: from_malloc_out_def split: prod.splits)
  qed simp_all
qed

text \<open>
  Claim C7 asks that 0 is returned exactly when the transform succeeds. The run
  below is on the frame of the payload 7, 8, 9 with its last byte missing, delivered
  in two pieces. No call of the run fails, the call returns 0, and the sink holds 7, 8
  only: the decoder still owes one byte of the frame when the source ends.
\<close>

theorem unfinished_frame_counts_as_success:
  "map_option (\<lambda>(rc, w, l). (rc, sink w, decoder w, list_ex (failed tiny) l))
     (zstd_decompress_fd (traced tiny) 3 4 (idle [Some [3, 7], Some [8]] 3 100, []))
     = Some (0, [7, 8], 1, False)"
  by code_simp

section \<open>Writes that return an error\<close>




section \<open>A stream cut off inside a frame\<close>

text \<open>
  Claim C1 asks that a stream cut off inside a frame is never reported as success.
  The run below is on the frame of the payload 7, 8, 9 with its last byte missing.
  The only decompression step consumes the three bytes there are, produces 7, 8 and
  returns 1: not an error, but the number of bytes the frame still owes, which is also
  the decoder's final state. The following \<open>read\<close> returns 0 and the call returns 0,
  with the two bytes in the sink.
\<close>

theorem truncated_stream_reports_success:
  "map_option (\<lambda>(rc, w, l). (rc, sink w, decoder w, l))
     (zstd_decompress_fd (traced tiny) 3 4 (idle [Some (take 3 (frame [7, 8, 9]))] 3 100, []))
     = Some (0, [7, 8], 1, log_truncated)
   \<and> \<not> ZSTD_isError tiny 1"
  by code_simp

section \<open>Round trip\<close>

lemma load_store:
  "load (store p bs w) q = (if q = p then bs @ drop (length bs) (load w p) else load w q)"
  by (simp add: load_def store_def)

lemma store_fields [simp]:
  "decoder (store p bs w) = decoder w" "sink (store p bs w) = sink w"
  "sink_room (store p bs w) = sink_room w" "sink_fd (store p bs w) = sink_fd w"
  "source_fd (store p bs w) = source_fd w" "incoming (store p bs w) = incoming w"
  by (simp_all add: store_def)

lemma load_update [simp]:
  "load (w\<lparr>decoder := d\<rparr>) = load w"
  "load (w\<lparr>sink := s\<rparr>) = load w"
  "load (w\<lparr>sink_room := n\<rparr>) = load w"
  "load (w\<lparr>incoming := c\<rparr>) = load w"
  by (simp_all add: load_def fun_eq_iff)

lemma unat_small: "n \<le> unat (z :: 64 word) \<Longrightarrow> unat (of_nat n :: 64 word) = n"
  by (rule le_unat_uoi)

lemma decodes_step:
  assumes "decodes dec I d0 S B" "I d i j" "0 < k" "i + k \<le> length S" "0 < room"
    and "dec d (take k (drop i S)) room = (r, c, out, d')"
  shows "\<not> - 120 < r \<and> c \<le> k \<and> length out \<le> room
     \<and> take (length out) (drop j B) = out
     \<and> I d' (i + c) (j + length out)
     \<and> (0 < c \<or> out \<noteq> [])
     \<and> (i + c = length S \<longrightarrow> j + length out = length B)"
proof -
  from assms(1) have "\<forall>d i j k room. I d i j \<and> 0 < k \<and> i + k \<le> length S \<and> 0 < room \<longrightarrow>
        (case dec d (take k (drop i S)) room of
           (r, c, out, d') \<Rightarrow>
             \<not> - 120 < r \<and> c \<le> k \<and> length out \<le> room
             \<and> take (length out) (drop j B) = out
             \<and> I d' (i + c) (j + length out)
             \<and> (0 < c \<or> out \<noteq> [])
             \<and> (i + c = length S \<longrightarrow> j + length out = length B))"
    by (simp add: decodes_def)
  note this [THEN spec [of _ d], THEN spec [of _ i], THEN spec [of _ j], THEN spec [of _ k],
    THEN spec [of _ room]]
  with assms(2-6) show ?thesis by simp
qed

lemma reference_step:
  fixes dec :: "'d decode_step"
  assumes contract: "decodes dec I d0 S B"
    and room: "0 < osz"
    and bufs: "in_buf \<noteq> out_buf"
    and st: "streaming I B dst_fd w i j"
    and src: "src input = in_buf"
    and more: "pos_i input < size_i input"
    and bytes: "take (unat (size_i input) - unat (pos_i input)) (drop (unat (pos_i input)) (load w in_buf))
       = take (unat (size_i input) - unat (pos_i input)) (drop i S)"
    and within: "i + (unat (size_i input) - unat (pos_i input)) \<le> length S"
  shows "\<exists>c n w'.
      drain_input (reference dec d0 isz osz) dstream out_buf osz dst_fd input w
        = drain_input (reference dec d0 isz osz) dstream out_buf osz dst_fd
            (input\<lparr>pos_i := pos_i input + of_nat c\<rparr>) w'
      \<and> c \<le> unat (size_i input) - unat (pos_i input)
      \<and> unat (pos_i input + of_nat c) = unat (pos_i input) + c
      \<and> (0 < c \<or> 0 < n)
      \<and> streaming I B dst_fd w' (i + c) (j + n)
      \<and> load w' in_buf = load w in_buf
      \<and> incoming w' = incoming w \<and> source_fd w' = source_fd w
      \<and> (i + c = length S \<longrightarrow> j + n = length B)"
proof -
  let ?X = "reference dec d0 isz osz"
  let ?p = "unat (pos_i input)" and ?n = "unat (size_i input)"
  let ?k = "?n - ?p"
  from more have k: "0 < ?k" by (simp add: word_less_nat_alt)
  from room have r0: "0 < unat osz" by (simp add: word_less_nat_alt)
  from st have inv: "I (decoder w) i j" and ob: "j \<le> length B" and snk: "sink w = take j B"
    and sroom: "length B - j \<le> sink_room w" and sfd: "sink_fd w = dst_fd"
    by (simp_all add: streaming_def)
  obtain r c out d' where dec: "dec (decoder w) (take ?k (drop i S)) (unat osz) = (r, c, out, d')"
    by (metis prod_cases4)
  from decodes_step [OF contract inv k within r0 dec] have
    ok: "\<not> - 120 < r" and ck: "c \<le> ?k" and outroom: "length out \<le> unat osz"
    and outB: "take (length out) (drop j B) = out"
    and inv': "I d' (i + c) (j + length out)"
    and progress: "0 < c \<or> out \<noteq> []"
    and final: "i + c = length S \<longrightarrow> j + length out = length B"
    by simp_all
  from outB ob have outlen: "j + length out \<le> length B"
  proof -
    from arg_cong [OF outB, of length] have "min (length out) (length B - j) = length out"
      by simp
    with ob show ?thesis by linarith
  qed
  have pc: "unat (pos_i input + of_nat c) = ?p + c"
  proof -
    from ck have "c \<le> unat (size_i input)" by simp
    then have c: "unat (of_nat c :: 64 word) = c" by (rule le_unat_uoi)
    from ck k have "?p + c \<le> unat (size_i input)" by simp
    also have "\<dots> < 2 ^ LENGTH(64)" by (rule unsigned_less)
    finally have "?p + unat (of_nat c :: 64 word) < 2 ^ LENGTH(64)" using c by simp
    then have "unat (pos_i input + of_nat c) = ?p + unat (of_nat c :: 64 word)"
      by (simp only: unat_add_lem)
    with c show ?thesis by simp
  qed
  have on: "unat (of_nat (length out) :: 64 word) = length out"
    using outroom by (rule le_unat_uoi)
  let ?w1 = "store out_buf out (w\<lparr>decoder := d'\<rparr>)"
  let ?input' = "input\<lparr>pos_i := pos_i input + of_nat c\<rparr>"
  have step: "ZSTD_decompressStream ?X dstream \<lparr>dst = out_buf, size_o = osz, pos_o = 0\<rparr> input w
      = (r, \<lparr>dst = out_buf, size_o = osz, pos_o = of_nat (length out)\<rparr>, ?input', ?w1)"
    using dec src bytes by (simp add: decompress_step_def Let_def)
  have l1: "load ?w1 in_buf = load w in_buf"
    using bufs by (simp add: load_store)
  have l2: "take (length out) (load ?w1 out_buf) = out"
    by (simp add: load_store)
  show ?thesis
  proof (cases "out = []")
    case True
    with progress have "0 < c" by simp
    have "\<not> (0 :: 64 word) < of_nat (length out)" using True by simp
    with step ok more
    have "drain_input ?X dstream out_buf osz dst_fd input w
        = drain_input ?X dstream out_buf osz dst_fd ?input' ?w1"
      by (subst drain_input.simps) simp
    moreover have "streaming I B dst_fd ?w1 (i + c) (j + 0)"
      using inv' True ob snk sroom sfd by (simp add: streaming_def)
    ultimately show ?thesis
      using ck pc \<open>0 < c\<close> l1 final True
      by (intro exI [of _ c] exI [of _ 0] exI [of _ ?w1]) simp
  next
    case False
    then have pos: "(0 :: 64 word) < of_nat (length out)"
      using on by (simp add: word_less_nat_alt)
    let ?w2 = "?w1\<lparr>sink := sink ?w1 @ out, sink_room := sink_room ?w1 - length out\<rparr>"
    from False have "0 < length out" by simp
    with outlen sroom have fits: "length out \<le> sink_room w" "0 < sink_room w"
      by linarith+
    have wr: "write ?X dst_fd out_buf (of_nat (length out)) ?w1 = (of_nat (length out), ?w2)"
      using sfd fits on l2 by (simp add: accept_def Let_def min_def)
    from step ok more pos wr
    have "drain_input ?X dstream out_buf osz dst_fd input w
        = drain_input ?X dstream out_buf osz dst_fd ?input' ?w2"
      by (subst drain_input.simps) simp
    moreover have "sink w @ out = take (j + length out) B"
      using snk outB by (simp add: take_add)
    then have "streaming I B dst_fd ?w2 (i + c) (j + length out)"
      using inv' outlen sroom sfd by (simp add: streaming_def)
    moreover have "load ?w2 in_buf = load w in_buf"
      using l1 by simp
    ultimately show ?thesis
      using ck pc False final
      by (intro exI [of _ c] exI [of _ "length out"] exI [of _ ?w2]) simp
  qed
qed

lemma drain_correct:
  fixes dec :: "'d decode_step"
  assumes contract: "decodes dec I d0 S B"
    and room: "0 < osz"
    and bufs: "in_buf \<noteq> out_buf"
  shows "streaming I B dst_fd w i j \<Longrightarrow> src input = in_buf \<Longrightarrow>
     take (unat (size_i input) - unat (pos_i input)) (drop (unat (pos_i input)) (load w in_buf))
       = take (unat (size_i input) - unat (pos_i input)) (drop i S) \<Longrightarrow>
     i + (unat (size_i input) - unat (pos_i input)) \<le> length S \<Longrightarrow>
     \<exists>w' j'. drain_input (reference dec d0 isz osz) dstream out_buf osz dst_fd input w = Some (False, w')
        \<and> streaming I B dst_fd w' (i + (unat (size_i input) - unat (pos_i input))) j'
        \<and> incoming w' = incoming w \<and> source_fd w' = source_fd w
        \<and> (0 < unat (size_i input) - unat (pos_i input)
             \<and> i + (unat (size_i input) - unat (pos_i input)) = length S \<longrightarrow> j' = length B)
        \<and> (unat (size_i input) - unat (pos_i input) = 0 \<longrightarrow> j' = j)"
proof (induction "unat (size_i input) - unat (pos_i input) + (length B - j)"
    arbitrary: input w i j rule: less_induct)
  case less
  let ?X = "reference dec d0 isz osz"
  let ?p = "unat (pos_i input)" and ?n = "unat (size_i input)"
  show ?case
  proof (cases "pos_i input < size_i input")
    case False
    then have "?n - ?p = 0" by (simp add: word_less_nat_alt)
    moreover from False
    have "drain_input ?X dstream out_buf osz dst_fd input w = Some (False, w)"
      by (subst drain_input.simps) simp
    ultimately show ?thesis using less.prems(1) by auto
  next
    case True
    from reference_step [OF contract room bufs less.prems(1,2) True less.prems(3,4)]
    obtain c n w1 where
      eq: "drain_input ?X dstream out_buf osz dst_fd input w
             = drain_input ?X dstream out_buf osz dst_fd (input\<lparr>pos_i := pos_i input + of_nat c\<rparr>) w1"
      and c: "c \<le> ?n - ?p" "unat (pos_i input + of_nat c) = ?p + c"
      and progress: "0 < c \<or> 0 < n"
      and st1: "streaming I B dst_fd w1 (i + c) (j + n)"
      and same: "load w1 in_buf = load w in_buf" "incoming w1 = incoming w" "source_fd w1 = source_fd w"
      and final: "i + c = length S \<longrightarrow> j + n = length B"
      by blast
    let ?input' = "input\<lparr>pos_i := pos_i input + of_nat c\<rparr>"
    let ?k' = "unat (size_i ?input') - unat (pos_i ?input')"
    have k': "?k' = ?n - ?p - c" using c by simp
    from st1 have jn: "j + n \<le> length B" by (simp add: streaming_def)
    from True have pn: "?p < ?n" by (simp add: word_less_nat_alt)
    have less: "?k' + (length B - (j + n)) < ?n - ?p + (length B - j)"
      using k' c(1) jn progress pn by linarith
    have bytes': "take ?k' (drop (unat (pos_i ?input')) (load w1 in_buf)) = take ?k' (drop (i + c) S)"
    proof -
      from arg_cong [OF less.prems(3), of "drop c"]
      have "take (?n - ?p - c) (drop (c + ?p) (load w in_buf)) = take (?n - ?p - c) (drop (c + i) S)"
        by (simp add: drop_take)
      with k' c(2) same(1) show ?thesis by (simp add: add.commute)
    qed
    have within': "i + c + ?k' \<le> length S"
      using k' c(1) less.prems(4) by simp
    have src': "src ?input' = in_buf" using less.prems(2) by simp
    from less.hyps [OF less st1 src' bytes' within'] obtain w' j' where
      res: "drain_input ?X dstream out_buf osz dst_fd ?input' w1 = Some (False, w')"
        "streaming I B dst_fd w' (i + c + ?k') j'"
        "incoming w' = incoming w1" "source_fd w' = source_fd w1"
        "0 < ?k' \<and> i + c + ?k' = length S \<longrightarrow> j' = length B"
        "?k' = 0 \<longrightarrow> j' = j + n"
      by (elim exE conjE) (rule that)
    have sum: "i + c + ?k' = i + (?n - ?p)" using k' c(1) by simp
    have "i + (?n - ?p) = length S \<longrightarrow> j' = length B"
    proof
      assume all: "i + (?n - ?p) = length S"
      show "j' = length B"
      proof (cases "0 < ?k'")
        case True
        with res(5) sum all show ?thesis by simp
      next
        case False
        with k' c(1) have "c = ?n - ?p" by simp
        with all final have "j + n = length B" by simp
        with res(6) False show ?thesis by simp
      qed
    qed
    moreover from pn have "?n - ?p \<noteq> 0" by simp
    ultimately show ?thesis using eq res(1-4) sum same by auto
  qed
qed

lemma positive_count:
  assumes "isz < (2 ^ 63 :: 64 word)" "0 < k" "k \<le> unat isz"
  shows "0 <s (of_nat k :: 64 word)" "unat (of_nat k :: 64 word) = k"
proof -
  from assms(3) show u: "unat (of_nat k :: 64 word) = k" by (rule le_unat_uoi)
  from assms(1) have "unat isz < 2 ^ 63" by (simp add: word_less_nat_alt)
  with assms(3) have "int k < 2 ^ 63" by simp
  then have "signed_take_bit 63 (int k) = int k"
    by (intro signed_take_bit_int_eq_self) (auto intro: order_trans [of _ 0])
  then have "sint (of_nat k :: 64 word) = int k"
    by (simp add: signed_of_nat)
  with assms(2) show "0 <s (of_nat k :: 64 word)"
    by (simp add: word_sless_alt)
qed

lemma read_loop_correct:
  fixes dec :: "'d decode_step"
  assumes contract: "decodes dec I d0 S B"
    and room: "0 < osz"
    and isz: "0 < isz" "isz < 2 ^ 63"
    and bufs: "in_buf \<noteq> out_buf"
  shows "streaming I B dst_fd w i j \<Longrightarrow> source_fd w = src_fd \<Longrightarrow>
     incoming w = map Some chunks \<Longrightarrow> [] \<notin> set chunks \<Longrightarrow> concat chunks = drop i S \<Longrightarrow>
     i \<le> length S \<Longrightarrow> (i = length S \<longrightarrow> j = length B) \<Longrightarrow>
     \<exists>w'. read_loop (reference dec d0 isz osz) dstream in_buf isz out_buf osz src_fd dst_fd w
            = Some (0, w')
        \<and> sink w' = B"
proof (induction "length (concat chunks)" arbitrary: w i j chunks rule: less_induct)
  case less
  let ?X = "reference dec d0 isz osz"
  show ?case
  proof (cases chunks)
    case Nil
    with less.prems(5,6) have "i = length S" by simp
    with less.prems(7,1) have "sink w = B" by (simp add: streaming_def)
    moreover from Nil less.prems(2,3)
    have "read_loop ?X dstream in_buf isz out_buf osz src_fd dst_fd w = Some (0, w)"
      by (subst read_loop.simps) (simp add: deliver_def)
    ultimately show ?thesis by simp
  next
    case (Cons bs cs)
    with less.prems(4) have bs: "bs \<noteq> []" by auto
    let ?k = "min (unat isz) (length bs)"
    from isz(1) bs have k: "0 < ?k" "?k \<le> unat isz" "?k \<le> length bs"
      by (simp_all add: word_less_nat_alt)
    note cnt = positive_count [OF isz(2) k(1,2)]
    let ?chunks' = "if ?k < length bs then drop ?k bs # cs else cs"
    let ?w1 = "store in_buf (take ?k bs) (w\<lparr>incoming := map Some ?chunks'\<rparr>)"
    let ?input = "\<lparr>src = in_buf, size_i = of_nat ?k, pos_i = 0\<rparr>"
    have rd: "read ?X src_fd in_buf isz w = (of_nat ?k, ?w1)"
      using less.prems(2,3) Cons by (simp add: deliver_def Let_def)
    have st1: "streaming I B dst_fd ?w1 i j"
      using less.prems(1) by (simp add: streaming_def)
    have S: "drop i S = bs @ concat cs"
      using less.prems(5) Cons by simp
    have bytes: "take (unat (size_i ?input) - unat (pos_i ?input)) (drop (unat (pos_i ?input)) (load ?w1 in_buf))
        = take (unat (size_i ?input) - unat (pos_i ?input)) (drop i S)"
      using cnt(2) k(3) S by (simp add: load_store)
    have "?k \<le> length (drop i S)" using S k(3) by simp
    with less.prems(6) have ik: "i + ?k \<le> length S" by simp
    then have within: "i + (unat (size_i ?input) - unat (pos_i ?input)) \<le> length S"
      using cnt(2) by simp
    from drain_correct [OF contract room bufs st1 _ bytes within, of isz dstream]
    obtain w2 j' where
      dr: "drain_input ?X dstream out_buf osz dst_fd ?input ?w1 = Some (False, w2)"
      and st2: "streaming I B dst_fd w2 (i + ?k) j'"
      and same: "incoming w2 = map Some ?chunks'" "source_fd w2 = src_fd"
      and final: "i + ?k = length S \<longrightarrow> j' = length B"
      using cnt(2) k(1) less.prems(2) by auto
    have eq: "read_loop ?X dstream in_buf isz out_buf osz src_fd dst_fd w
        = read_loop ?X dstream in_buf isz out_buf osz src_fd dst_fd w2"
      using rd cnt(1) dr by (subst read_loop.simps) simp
    have cc: "concat ?chunks' = drop (i + ?k) S"
    proof -
      have "drop (i + ?k) S = drop ?k (drop i S)" by (simp add: add.commute)
      also have "\<dots> = drop ?k bs @ concat cs" using S k(3) by simp
      also have "\<dots> = concat ?chunks'" using k(3) by simp
      finally show ?thesis by simp
    qed
    have smaller: "length (concat ?chunks') < length (concat chunks)"
      using Cons k(1,3) by (simp add: less.prems(5))
    have none: "[] \<notin> set ?chunks'"
      using less.prems(4) Cons by auto
    from less.hyps [OF smaller st2 same(2,1) none cc ik final] eq
    show ?thesis by simp
  qed
qed

lemma unat_sum:
  "unat (a :: 64 word) + unat (b :: 64 word) < 2 ^ 64 \<Longrightarrow> unat (a + b) = unat a + unat b"
  using unat_add_lem [of a b] by simp

lemma alloc_ok:
  assumes "0 < heap_left w" "alloc n w = (p, w')"
  shows "p = next_block w \<and> heap_left w' = heap_left w - 1 \<and> next_block w' = next_block w + n + 16
     \<and> decoder w' = decoder w \<and> init_code w' = init_code w \<and> sink w' = sink w
     \<and> sink_room w' = sink_room w \<and> sink_fd w' = sink_fd w \<and> source_fd w' = source_fd w
     \<and> incoming w' = incoming w"
  using assms by (auto simp: alloc_def)

text \<open>
  Claim C8. Let \<open>compress\<close> be a compressor and \<open>dec\<close> a streaming decoder that
  decodes \<open>compress B\<close> to \<open>B\<close> in the sense of \<open>decodes\<close>. In a reference world
  whose source delivers \<open>compress B\<close> in any non-empty chunks, whose heap can serve the
  three allocations without wrapping around the address space, whose stream
  initialisation succeeds and whose sink has room for \<open>B\<close>, with buffer sizes that
  are positive (and the input size one that \<open>ssize_t\<close> can hold), the call returns 0
  and the sink holds exactly \<open>B\<close>.
\<close>

theorem round_trip:
  fixes dec :: "'d decode_step"
  assumes contract: "decodes dec I d0 (compress B) B"
    and chunks: "concat chunks = compress B" "[] \<notin> set chunks"
    and sizes: "0 < isz" "isz < 2 ^ 63" "0 < osz"
    and heap: "3 \<le> heap_left w" "0 < next_block w" "unat (next_block w) + unat isz + 192 < 2 ^ 64"
    and init: "\<not> - 120 < init_code w"
    and fds: "source_fd w = src_fd" "sink_fd w = dst_fd"
    and io: "incoming w = map Some chunks" "sink w = []" "length B \<le> sink_room w"
  shows "\<exists>w'. zstd_decompress_fd (reference dec d0 isz osz) src_fd dst_fd w = Some (0, w')
     \<and> sink w' = B"
proof -
  let ?X = "reference dec d0 isz osz"
  obtain dstream w1 where c1: "alloc 160 w = (dstream, w1)"
    by (cases "alloc 160 w")
  from heap(1) alloc_ok [OF _ c1] have w1: "dstream = next_block w" "heap_left w1 = heap_left w - 1"
    "next_block w1 = next_block w + 160 + 16" "init_code w1 = init_code w" "sink w1 = sink w"
    "sink_room w1 = sink_room w" "sink_fd w1 = sink_fd w" "source_fd w1 = source_fd w"
    "incoming w1 = incoming w"
    by simp_all
  let ?w2 = "w1\<lparr>decoder := d0\<rparr>"
  obtain in_buf w3 where c3: "alloc isz ?w2 = (in_buf, w3)"
    by (cases "alloc isz ?w2")
  from heap(1) w1 alloc_ok [OF _ c3] have w3: "in_buf = next_block w + 160 + 16" "heap_left w3 = heap_left w - 2"
    "next_block w3 = next_block w + 160 + 16 + isz + 16" "decoder w3 = d0" "sink w3 = sink w"
    "sink_room w3 = sink_room w" "sink_fd w3 = sink_fd w" "source_fd w3 = source_fd w"
    "incoming w3 = incoming w"
    by simp_all
  obtain out_buf w4 where c4: "alloc osz w3 = (out_buf, w4)"
    by (cases "alloc osz w3")
  from heap(1) w3 alloc_ok [OF _ c4] have w4: "out_buf = next_block w + 160 + 16 + isz + 16"
    "decoder w4 = d0" "sink w4 = sink w"
    "sink_room w4 = sink_room w" "sink_fd w4 = sink_fd w" "source_fd w4 = source_fd w"
    "incoming w4 = incoming w"
    by simp_all
  from heap(2) w1(1) have d: "dstream \<noteq> 0" by simp
  have u1: "unat in_buf = unat (next_block w) + 176"
    using heap(3) w3(1) by (simp add: unat_sum)
  have u2: "unat (in_buf + isz) = unat (next_block w) + 176 + unat isz"
    using heap(3) u1 by (simp add: unat_sum)
  have "out_buf = in_buf + isz + 16" using w3(1) w4(1) by simp
  then have u3: "unat out_buf = unat (next_block w) + 176 + unat isz + 16"
    using heap(3) u2 by (simp add: unat_sum)
  from u1 have a: "in_buf \<noteq> 0" by auto
  from u3 have b: "out_buf \<noteq> 0" by auto
  from u1 u3 have ab: "in_buf \<noteq> out_buf" by auto
  have st: "streaming I B dst_fd w4 0 0"
    using contract io fds w4 by (simp add: streaming_def decodes_def)
  from contract have empty: "0 = length (compress B) \<longrightarrow> 0 = length B"
    by (auto simp: decodes_def)
  from read_loop_correct [OF contract sizes(3) sizes(1,2) ab st, of src_fd chunks dstream]
    fds io chunks empty w4
  obtain w5 where
    rl: "read_loop ?X dstream in_buf isz out_buf osz src_fd dst_fd w4 = Some (0, w5)"
    and out: "sink w5 = B"
    by auto
  have "zstd_decompress_fd ?X src_fd dst_fd w
      = Some (0, release dstream (release out_buf (release in_buf w5)))"
    using c1 c3 c4 d a b init w1(4) rl
    by (simp add: zstd_decompress_fd_def Let_def)
  moreover have "sink (release dstream (release out_buf (release in_buf w5))) = B"
    using out by (simp add: release_def)
  ultimately show ?thesis by blast
qed

lemma frame_step_payload:
  "0 < d \<Longrightarrow> frame_step d bytes room = copy_payload 0 d bytes room"
  by (cases d) simp_all

lemma frame_step_header:
  "\<not> 128 \<le> h \<Longrightarrow> frame_step 0 (h # bytes) room = copy_payload 1 (unat h) bytes room"
  by simp

lemma copy_payload_min:
  "m = min k (min (length bytes) room) \<Longrightarrow>
   copy_payload used k bytes room = (of_nat (k - m), used + m, take m bytes, k - m)"
  by (simp only: copy_payload_def Let_def)

lemma frame_step_decodes:
  assumes "length B < 128"
  shows "decodes frame_step (frame_progress B) 0 (frame B) B"
  unfolding decodes_def
proof (intro conjI allI impI)
  show "frame_progress B 0 0 0" by (simp add: frame_progress_def)
  show "frame B = [] \<Longrightarrow> B = []" by (simp add: frame_def)
  fix d i j k room :: nat
  assume a: "frame_progress B d i j \<and> 0 < k \<and> i + k \<le> length (frame B) \<and> 0 < room"
  have h: "unat (of_nat (length B) :: byte) = length B"
    using assms by (simp add: unat_of_nat)
  have small: "\<not> 128 \<le> (of_nat (length B) :: byte)"
    using assms h by (simp add: word_le_nat_alt)
  have code: "\<And>n. n \<le> length B \<Longrightarrow> \<not> - 120 < (of_nat n :: 64 word)"
  proof -
    fix n assume "n \<le> length B"
    with assms have "unat (of_nat n :: 64 word) = n" by (simp add: unat_of_nat)
    with assms \<open>n \<le> length B\<close> show "\<not> - 120 < (of_nat n :: 64 word)"
      by (simp add: word_less_nat_alt)
  qed
  from a consider (header) "i = 0" "j = 0" "d = 0" | (payload) "i = j + 1" "j < length B" "d = length B - j"
    by (auto simp: frame_progress_def frame_def)
  then show "case frame_step d (take k (drop i (frame B))) room of
       (r, c, out, d') \<Rightarrow>
         \<not> - 120 < r \<and> c \<le> k \<and> length out \<le> room
         \<and> take (length out) (drop j B) = out
         \<and> frame_progress B d' (i + c) (j + length out)
         \<and> (0 < c \<or> out \<noteq> [])
         \<and> (i + c = length (frame B) \<longrightarrow> j + length out = length B)"
  proof cases
    case header
    from a obtain k' where k': "k = Suc k'" by (cases k) auto
    define m where "m = min (length B) (min (length (take k' B)) room)"
    have m: "m \<le> length B" "m \<le> k'" "m \<le> room"
      by (simp_all add: m_def)
    have "take k (drop i (frame B)) = of_nat (length B) # take k' B"
      using header(1) k' by (simp add: frame_def)
    then have "frame_step d (take k (drop i (frame B))) room
        = copy_payload 1 (length B) (take k' B) room"
      using header(3) frame_step_header [OF small, of "take k' B" room] h by simp
    also have "\<dots> = (of_nat (length B - m), 1 + m, take m (take k' B), length B - m)"
      by (rule copy_payload_min [OF m_def])
    also have "take m (take k' B) = take m B"
      using m(2) by (simp add: min_absorb1)
    finally have step: "frame_step d (take k (drop i (frame B))) room
        = (of_nat (length B - m), 1 + m, take m B, length B - m)" .
    have "frame_progress B (length B - m) (1 + m) m"
      using m(1) by (simp add: frame_progress_def)
    moreover have "length (frame B) = Suc (length B)"
      by (simp add: frame_def)
    ultimately show ?thesis
      unfolding step using header k' m code [of "length B - m"] by simp
  next
    case payload
    then have d': "0 < d" by simp
    define m where "m = min d (min (length (take k (drop j B))) room)"
    have m: "m \<le> d" "m \<le> k" "m \<le> room" "m \<le> length B - j"
      by (simp_all add: m_def)
    from a payload d' have mpos: "0 < m"
      by (simp add: m_def)
    have "take k (drop i (frame B)) = take k (drop j B)"
      using payload(1) by (simp add: frame_def)
    then have "frame_step d (take k (drop i (frame B))) room
        = copy_payload 0 d (take k (drop j B)) room"
      using frame_step_payload [OF d'] by simp
    also have "\<dots> = (of_nat (d - m), 0 + m, take m (take k (drop j B)), d - m)"
      by (rule copy_payload_min [OF m_def])
    also have "take m (take k (drop j B)) = take m (drop j B)"
      using m(2) by (simp add: min_absorb1)
    finally have step: "frame_step d (take k (drop i (frame B))) room
        = (of_nat (d - m), m, take m (drop j B), d - m)" by simp
    have "frame_progress B (d - m) (i + m) (j + m)"
      using m(1,4) payload by (simp add: frame_progress_def)
    moreover have "length (frame B) = Suc (length B)"
      by (simp add: frame_def)
    moreover have "d - m \<le> length B" using payload by simp
    ultimately show ?thesis
      unfolding step using payload m mpos code [of "d - m"] by simp
  qed
qed

theorem round_trip_witness:
  "\<exists>w'. zstd_decompress_fd tiny 3 4 (idle [Some [3, 7], Some [8, 9]] 3 100) = Some (0, w')
     \<and> sink w' = [7, 8, 9]"
proof -
  have "decodes frame_step (frame_progress [7, 8, 9]) 0 (frame [7, 8, 9]) [7, 8, 9]"
    by (rule frame_step_decodes) simp
  from round_trip [of frame_step "frame_progress [7, 8, 9]" 0 frame "[7, 8, 9]" "[[3, 7], [8, 9]]" 4 2
      "idle [Some [3, 7], Some [8, 9]] 3 100" 3 4, OF this]
  show ?thesis
    by (simp add: tiny_def idle_def frame_def)
qed

section \<open>The error string is data, not a format\<close>

text \<open>
  Claim C10. For every archive handle, error number and error string the wrapper calls
  \<open>archive_set_error\<close> with the format \<open>"%s"\<close> and the error string as its only
  variadic argument. Hence, with any formatter that expands \<open>%s\<close> to its string
  argument, the message recorded is the error string itself, whatever conversion
  specifiers it contains.
\<close>

theorem archive_set_error_wrapper_verbatim:
  "archive_set_error_wrapper archive_set_error a error_number error_string
     = archive_set_error a error_number ''%s'' [Str error_string]
   \<and> ((\<forall>s. vsprintf ''%s'' [Str s] = s) \<longrightarrow>
        archive_set_error_wrapper (record_error vsprintf) a error_number error_string errors
          = errors(a \<mapsto> (error_number, error_string)))"
  by (simp add: archive_set_error_wrapper_def record_error_def)

theorem archive_set_error_wrapper_verbatim_witness:
  "archive_set_error_wrapper (record_error expand) 0x2000 22 ''100%% of %s'' Map.empty 0x2000
     = Some (22, ''100%% of %s'')
   \<and> record_error expand 0x2000 22 ''100%% of %s'' [] Map.empty 0x2000
     = Some (22, ''100% of '')"
proof -
  have "\<forall>s. expand ''%s'' [Str s] = s"
    by simp
  with archive_set_error_wrapper_verbatim [of "record_error expand" "0x2000" 22 "''100%% of %s''" expand Map.empty]
  have "archive_set_error_wrapper (record_error expand) 0x2000 22 ''100%% of %s'' Map.empty
          = [0x2000 \<mapsto> (22, ''100%% of %s'')]"
    by blast
  then show ?thesis
    by (simp add: record_error_def)
qed

end
